theory Spec2Isabelle
  imports Complex_Main "HOL-Library.Word"
begin

unbundle bit_operations_syntax

section \<open>Machine integers and counted loops\<close>

type_synonym u32 = "32 word"

text \<open>
  Every counted loop of the sources has the shape
  \<^verbatim>\<open>for (uint32_t i = a; i < n; i++) body\<close> with a body that changes neither \<open>i\<close>
  nor \<open>n\<close>. The counter is a 32-bit unsigned value; since \<open>i < n\<close> holds when it is
  incremented, the increment never wraps and the loop always ends.
\<close>

function for_loop :: "u32 \<Rightarrow> u32 \<Rightarrow> (u32 \<Rightarrow> 's \<Rightarrow> 's) \<Rightarrow> 's \<Rightarrow> 's" where
  "for_loop i n body s = (if i < n then for_loop (i + 1) n body (body i s) else s)"
  by pat_completeness auto
termination
proof (relation "measure (\<lambda>(i, n, body, s). unat n - unat i)")
  show "wf (measure (\<lambda>(i, n, body, s). unat n - unat i))"
    by simp
next
  fix i n :: u32 and body :: "u32 \<Rightarrow> 's \<Rightarrow> 's" and s :: 's
  assume less: "i < n"
  then have lt: "unat i < unat n"
    by (simp add: word_less_nat_alt)
  have "unat n < 2 ^ 32"
    using unsigned_less [of n] by simp
  with lt have "unat (i + 1) = Suc (unat i)"
    by (simp add: unat_word_ariths)
  with lt show "((i + 1, n, body, body i s), (i, n, body, s))
      \<in> measure (\<lambda>(i, n, body, s). unat n - unat i)"
    by simp
qed

declare for_loop.simps [simp del]

section \<open>Framebuffer and drawing primitives\<close>

text \<open>
  \<^verbatim>\<open>framebuffer_t\<close>: width, height, pitch and the pointer \<open>buffer\<close>. The pixel memory
  the pointer refers to is the component \<open>fb_mem\<close>: \<open>fb_mem fb k\<close> is the content of
  \<^verbatim>\<open>fb->buffer[k]\<close>. The subscript \<^verbatim>\<open>y * (fb->pitch / 4) + x\<close> is computed in
  \<^verbatim>\<open>uint32_t\<close>, so cells are named by 32-bit indices and the arithmetic wraps.
\<close>

record framebuffer =
  fb_width :: u32
  fb_height :: u32
  fb_pitch :: u32
  fb_buffer :: u32
  fb_mem :: "u32 \<Rightarrow> u32"

definition RGB :: "u32 \<Rightarrow> u32 \<Rightarrow> u32 \<Rightarrow> u32" where
  "RGB r g b = (push_bit 16 r OR push_bit 8 g) OR b"

definition COLOR_BLACK :: u32 where "COLOR_BLACK = RGB 0 0 0"
definition COLOR_WHITE :: u32 where "COLOR_WHITE = RGB 255 255 255"
definition COLOR_RED :: u32 where "COLOR_RED = RGB 255 0 0"
definition COLOR_GREEN :: u32 where "COLOR_GREEN = RGB 0 255 0"
definition COLOR_YELLOW :: u32 where "COLOR_YELLOW = RGB 255 255 0"
definition COLOR_CYAN :: u32 where "COLOR_CYAN = RGB 0 255 255"
definition COLOR_GRAY :: u32 where "COLOR_GRAY = RGB 128 128 128"

definition fb_draw_pixel :: "framebuffer \<Rightarrow> u32 \<Rightarrow> u32 \<Rightarrow> u32 \<Rightarrow> framebuffer" where
  "fb_draw_pixel fb x y color =
     (if x \<ge> fb_width fb \<or> y \<ge> fb_height fb then fb
      else fb\<lparr>fb_mem := (fb_mem fb)(y * (fb_pitch fb div 4) + x := color)\<rparr>)"

definition fb_clear :: "framebuffer \<Rightarrow> u32 \<Rightarrow> framebuffer" where
  "fb_clear fb color =
     for_loop 0 (fb_height fb) (\<lambda>y. for_loop 0 (fb_width fb)
        (\<lambda>x fb'. fb'\<lparr>fb_mem := (fb_mem fb')(y * (fb_pitch fb' div 4) + x := color)\<rparr>)) fb"

definition fb_draw_rect ::
  "framebuffer \<Rightarrow> u32 \<Rightarrow> u32 \<Rightarrow> u32 \<Rightarrow> u32 \<Rightarrow> u32 \<Rightarrow> framebuffer" where
  "fb_draw_rect fb x y w h color =
     for_loop 0 h
       (\<lambda>i fb'. fb_draw_pixel (fb_draw_pixel fb' x (y + i) color) (x + w - 1) (y + i) color)
       (for_loop 0 w
          (\<lambda>i fb'. fb_draw_pixel (fb_draw_pixel fb' (x + i) y color) (x + i) (y + h - 1) color)
          fb)"

definition fb_draw_filled_rect ::
  "framebuffer \<Rightarrow> u32 \<Rightarrow> u32 \<Rightarrow> u32 \<Rightarrow> u32 \<Rightarrow> u32 \<Rightarrow> framebuffer" where
  "fb_draw_filled_rect fb x y w h color =
     for_loop 0 h (\<lambda>j. for_loop 0 w (\<lambda>i fb'. fb_draw_pixel fb' (x + i) (y + j) color)) fb"

text \<open>
  The cells of the visible \<open>width \<times> height\<close> region under pitch-based addressing.
\<close>

definition visible :: "framebuffer \<Rightarrow> u32 set" where
  "visible fb = {k. \<exists>x y. x < fb_width fb \<and> y < fb_height fb \<and> k = y * (fb_pitch fb div 4) + x}"

text \<open>
  A drawing step relates the framebuffer before and after: the handle is the same and
  only cells of the visible region differ.
\<close>

definition clipped :: "framebuffer \<Rightarrow> framebuffer \<Rightarrow> bool" where
  "clipped fb fb' \<longleftrightarrow>
     fb_width fb' = fb_width fb \<and> fb_height fb' = fb_height fb \<and>
     fb_pitch fb' = fb_pitch fb \<and> fb_buffer fb' = fb_buffer fb \<and>
     (\<forall>k. fb_mem fb' k \<noteq> fb_mem fb k \<longrightarrow> k \<in> visible fb)"

section \<open>Mailbox transport and framebuffer negotiation\<close>

definition MAILBOX_READ :: u32 where "MAILBOX_READ = 0x3F000000 + 0xB880 + 0x00"
definition MAILBOX_STATUS :: u32 where "MAILBOX_STATUS = 0x3F000000 + 0xB880 + 0x18"
definition MAILBOX_WRITE :: u32 where "MAILBOX_WRITE = 0x3F000000 + 0xB880 + 0x20"
definition MAILBOX_FULL :: u32 where "MAILBOX_FULL = 0x80000000"
definition MAILBOX_EMPTY :: u32 where "MAILBOX_EMPTY = 0x40000000"
definition MAILBOX_CH_PROP :: u32 where "MAILBOX_CH_PROP = 8"

text \<open>
  The machine as the mailbox code sees it: the static buffer \<^verbatim>\<open>mailbox[36]\<close> and its
  address, the values that the coming \<^verbatim>\<open>mmio_read\<close> calls will return (in program
  order), the log of \<^verbatim>\<open>mmio_write\<close> calls, and the firmware, which rewrites the buffer
  when a request is posted. A poll loop that uses up \<open>mmio_reads\<close> without leaving has
  no result: \<open>None\<close> stands for a call that does not return.
\<close>

record machine =
  mailbox :: "nat \<Rightarrow> u32"
  mailbox_addr :: "64 word"
  mmio_reads :: "u32 list"
  mmio_writes :: "(u32 \<times> u32) list"
  firmware :: "u32 \<Rightarrow> (nat \<Rightarrow> u32) \<Rightarrow> (nat \<Rightarrow> u32)"

text \<open>\<^verbatim>\<open>while (mmio_read(MAILBOX_STATUS) & flag);\<close>\<close>

fun poll_while :: "u32 \<Rightarrow> u32 list \<Rightarrow> u32 list option" where
  "poll_while flag [] = None"
| "poll_while flag (v # vs) = (if v AND flag \<noteq> 0 then poll_while flag vs else Some vs)"

text \<open>
  The response loop: poll the status until it is not empty, read the data register, and
  start over unless the value read is the value written.
\<close>

fun await_response :: "u32 \<Rightarrow> u32 list \<Rightarrow> u32 list option" where
  "await_response r [] = None"
| "await_response r (v # vs) =
     (if v AND MAILBOX_EMPTY \<noteq> 0 then await_response r vs
      else (case vs of [] \<Rightarrow> None
            | d # vs' \<Rightarrow> if r = d then Some vs' else await_response r vs'))"

text \<open>The word posted to the mailbox: the buffer address with the channel in its low bits.\<close>

definition mailbox_message :: "64 word \<Rightarrow> u32 \<Rightarrow> u32" where
  "mailbox_message addr channel = (ucast addr AND NOT 0xF) OR (channel AND 0xF)"

definition mailbox_call :: "u32 \<Rightarrow> machine \<Rightarrow> (bool \<times> machine) option" where
  "mailbox_call channel m =
     (let r = mailbox_message (mailbox_addr m) channel
      in case poll_while MAILBOX_FULL (mmio_reads m) of
           None \<Rightarrow> None
         | Some vs \<Rightarrow>
             (let m1 = m\<lparr>mmio_reads := vs, mmio_writes := mmio_writes m @ [(MAILBOX_WRITE, r)],
                         mailbox := firmware m r (mailbox m)\<rparr>
              in case await_response r vs of
                   None \<Rightarrow> None
                 | Some vs' \<Rightarrow> Some (mailbox m1 1 = 0x80000000, m1\<lparr>mmio_reads := vs'\<rparr>)))"

definition fb_request :: "u32 \<Rightarrow> u32 \<Rightarrow> (nat \<Rightarrow> u32) \<Rightarrow> (nat \<Rightarrow> u32)" where
  "fb_request width height mb = mb
     (0 := 35 * 4, 1 := 0,
      2 := 0x48003, 3 := 8, 4 := 8, 5 := width, 6 := height,
      7 := 0x48004, 8 := 8, 9 := 8, 10 := width, 11 := height,
      12 := 0x48009, 13 := 8, 14 := 8, 15 := 0, 16 := 0,
      17 := 0x48005, 18 := 4, 19 := 4, 20 := 32,
      21 := 0x48006, 22 := 4, 23 := 4, 24 := 1,
      25 := 0x40001, 26 := 8, 27 := 8, 28 := 4096, 29 := 0,
      30 := 0x40008, 31 := 4, 32 := 4, 33 := 0,
      34 := 0)"

text \<open>
  \<^verbatim>\<open>fb_init\<close> returns \<open>-1\<close> and leaves \<^verbatim>\<open>*fb\<close> alone when the call is not
  acknowledged, and \<open>0\<close> with the handle filled in otherwise.
\<close>

definition fb_init ::
  "framebuffer \<Rightarrow> u32 \<Rightarrow> u32 \<Rightarrow> machine \<Rightarrow> (int \<times> framebuffer \<times> machine) option" where
  "fb_init fb width height m =
     (case mailbox_call MAILBOX_CH_PROP (m\<lparr>mailbox := fb_request width height (mailbox m)\<rparr>) of
        None \<Rightarrow> None
      | Some (ack, m') \<Rightarrow>
          if \<not> ack then Some (- 1, fb, m')
          else Some (0, fb\<lparr>fb_width := width, fb_height := height,
                             fb_pitch := mailbox m' 33,
                             fb_buffer := mailbox m' 28 AND 0x3FFFFFFF\<rparr>, m'))"

section \<open>Single-precision arithmetic\<close>

text \<open>
  The C type \<^verbatim>\<open>float\<close> is IEEE 754 single precision. A value is a finite number
  (\<open>Finite 0\<close> is the positive zero), the negative zero, an infinity or a NaN.
\<close>

datatype f32 = Finite rat | NegZero | PosInf | NegInf | NaN

text \<open>
  Rounding to nearest, ties to even. A magnitude \<open>m\<close> is scaled to \<open>s * 2\<^sup>k\<close> with
  \<open>2\<^sup>2\<^sup>3 \<le> s < 2\<^sup>2\<^sup>4\<close> and the exponent \<open>k\<close> of the last place kept within
  \<open>-149 \<dots> 104\<close> (below are the subnormal numbers, above is overflow); \<open>s\<close> is
  then rounded to an integer.
\<close>

definition round_half_even :: "rat \<Rightarrow> int" where
  "round_half_even q =
     (let f = \<lfloor>q\<rfloor>; r = q - of_int f
      in if r < 1 / 2 then f else if 1 / 2 < r then f + 1 else if even f then f else f + 1)"

function scale_down :: "rat \<Rightarrow> int \<Rightarrow> rat \<times> int" where
  "scale_down m k = (if k < 104 \<and> 2 ^ 24 \<le> m then scale_down (m / 2) (k + 1) else (m, k))"
  by pat_completeness auto
termination
  by (relation "measure (\<lambda>(m, k). nat (104 - k))") auto

function scale_up :: "rat \<Rightarrow> int \<Rightarrow> rat \<times> int" where
  "scale_up m k = (if - 149 < k \<and> m < 2 ^ 23 then scale_up (m * 2) (k - 1) else (m, k))"
  by pat_completeness auto
termination
  by (relation "measure (\<lambda>(m, k). nat (k + 149))") auto

declare scale_down.simps [simp del] scale_up.simps [simp del]

definition normalise :: "rat \<Rightarrow> rat \<times> int" where
  "normalise m = (if 2 ^ 24 \<le> m then scale_down m 0 else scale_up m 0)"

definition round_mag :: "rat \<Rightarrow> rat" where
  "round_mag m = (case normalise m of (s, k) \<Rightarrow> of_int (round_half_even s) * 2 powi k)"

definition f32_round :: "rat \<Rightarrow> f32" where
  "f32_round q =
     (let r = round_mag \<bar>q\<bar>
      in if 2 ^ 128 \<le> r then (if 0 < q then PosInf else NegInf)
         else if 0 \<le> q then Finite r
         else if r = 0 then NegZero else Finite (- r))"

text \<open>A finite value is one that rounding leaves alone.\<close>

definition representable :: "f32 \<Rightarrow> bool" where
  "representable a = (case a of Finite q \<Rightarrow> f32_round q = Finite q | _ \<Rightarrow> True)"

fun f32_val :: "f32 \<Rightarrow> rat" where
  "f32_val (Finite q) = q"
| "f32_val _ = 0"

fun f32_rank :: "f32 \<Rightarrow> int" where
  "f32_rank NegInf = - 1"
| "f32_rank PosInf = 1"
| "f32_rank _ = 0"

fun is_finite :: "f32 \<Rightarrow> bool" where
  "is_finite (Finite q) = True"
| "is_finite NegZero = True"
| "is_finite _ = False"

fun is_inf :: "f32 \<Rightarrow> bool" where
  "is_inf PosInf = True"
| "is_inf NegInf = True"
| "is_inf _ = False"

fun is_zero :: "f32 \<Rightarrow> bool" where
  "is_zero (Finite q) = (q = 0)"
| "is_zero NegZero = True"
| "is_zero _ = False"

text \<open>The sign bit.\<close>

fun is_neg :: "f32 \<Rightarrow> bool" where
  "is_neg (Finite q) = (q < 0)"
| "is_neg NegZero = True"
| "is_neg NegInf = True"
| "is_neg _ = False"

text \<open>The comparisons \<^verbatim>\<open><\<close>, \<^verbatim>\<open>>\<close>, \<^verbatim>\<open><=\<close> and \<^verbatim>\<open>==\<close>: false on a NaN, and the two zeros are equal.\<close>

definition f32_lt :: "f32 \<Rightarrow> f32 \<Rightarrow> bool" where
  "f32_lt a b \<longleftrightarrow> a \<noteq> NaN \<and> b \<noteq> NaN \<and>
     (f32_rank a < f32_rank b \<or> f32_rank a = f32_rank b \<and> f32_val a < f32_val b)"

definition f32_gt :: "f32 \<Rightarrow> f32 \<Rightarrow> bool" where
  "f32_gt a b = f32_lt b a"

definition f32_le :: "f32 \<Rightarrow> f32 \<Rightarrow> bool" where
  "f32_le a b \<longleftrightarrow> a \<noteq> NaN \<and> b \<noteq> NaN \<and>
     (f32_rank a < f32_rank b \<or> f32_rank a = f32_rank b \<and> f32_val a \<le> f32_val b)"

definition f32_eq :: "f32 \<Rightarrow> f32 \<Rightarrow> bool" where
  "f32_eq a b \<longleftrightarrow> a \<noteq> NaN \<and> b \<noteq> NaN \<and> f32_rank a = f32_rank b \<and> f32_val a = f32_val b"

fun f32_neg :: "f32 \<Rightarrow> f32" where
  "f32_neg (Finite q) = (if q = 0 then NegZero else Finite (- q))"
| "f32_neg NegZero = Finite 0"
| "f32_neg PosInf = NegInf"
| "f32_neg NegInf = PosInf"
| "f32_neg NaN = NaN"

text \<open>A zero with the sign bit \<open>s\<close>, an infinity with the sign bit \<open>s\<close>.\<close>

definition signed_zero :: "bool \<Rightarrow> f32" where
  "signed_zero s = (if s then NegZero else Finite 0)"

definition signed_inf :: "bool \<Rightarrow> f32" where
  "signed_inf s = (if s then NegInf else PosInf)"

definition f32_add :: "f32 \<Rightarrow> f32 \<Rightarrow> f32" where
  "f32_add a b =
     (if a = NaN \<or> b = NaN then NaN
      else if is_inf a then (if is_inf b \<and> a \<noteq> b then NaN else a)
      else if is_inf b then b
      else if f32_val a + f32_val b = 0 then signed_zero (a = NegZero \<and> b = NegZero)
      else f32_round (f32_val a + f32_val b))"

definition f32_sub :: "f32 \<Rightarrow> f32 \<Rightarrow> f32" where
  "f32_sub a b = f32_add a (f32_neg b)"

definition f32_mul :: "f32 \<Rightarrow> f32 \<Rightarrow> f32" where
  "f32_mul a b =
     (if a = NaN \<or> b = NaN then NaN
      else if is_inf a \<or> is_inf b
        then (if is_zero a \<or> is_zero b then NaN else signed_inf (is_neg a \<noteq> is_neg b))
      else if f32_val a * f32_val b = 0 then signed_zero (is_neg a \<noteq> is_neg b)
      else f32_round (f32_val a * f32_val b))"

definition f32_div :: "f32 \<Rightarrow> f32 \<Rightarrow> f32" where
  "f32_div a b =
     (if a = NaN \<or> b = NaN then NaN
      else if is_inf a then (if is_inf b then NaN else signed_inf (is_neg a \<noteq> is_neg b))
      else if is_inf b then signed_zero (is_neg a \<noteq> is_neg b)
      else if is_zero b then (if is_zero a then NaN else signed_inf (is_neg a \<noteq> is_neg b))
      else if is_zero a then signed_zero (is_neg a \<noteq> is_neg b)
      else f32_round (f32_val a / f32_val b))"

text \<open>\<^verbatim>\<open>(float)n\<close> for an unsigned 32-bit \<open>n\<close>.\<close>

definition u32_to_f32 :: "u32 \<Rightarrow> f32" where
  "u32_to_f32 n = f32_round (of_nat (unat n))"

text \<open>
  \<^verbatim>\<open>(uint32_t)a\<close> drops the fractional part. C leaves the conversion undefined when
  the integral part is not a \<^verbatim>\<open>uint32_t\<close> value and for infinities and NaN: \<open>None\<close>.
\<close>

definition f32_to_u32 :: "f32 \<Rightarrow> u32 option" where
  "f32_to_u32 a =
     (case a of
        Finite q \<Rightarrow> if - 1 < q \<and> q < 2 ^ 32 then Some (word_of_int (if 0 \<le> q then \<lfloor>q\<rfloor> else 0))
                    else None
      | NegZero \<Rightarrow> Some 0
      | _ \<Rightarrow> None)"

section \<open>Dashboard model\<close>

datatype dash_element_type =
  DASH_ELEMENT_GAUGE | DASH_ELEMENT_LABEL | DASH_ELEMENT_GRAPH | DASH_ELEMENT_VALUE

record dash_element =
  elem_type :: dash_element_type
  elem_x :: u32
  elem_y :: u32
  elem_width :: u32
  elem_height :: u32
  elem_color :: u32
  elem_label :: string
  elem_value :: f32
  elem_min_value :: f32
  elem_max_value :: f32

text \<open>
  \<^verbatim>\<open>dashboard_t\<close>: the array \<^verbatim>\<open>elements[32]\<close> is a list of length 32 whose entries
  from \<open>element_count\<close> on hold whatever the memory held before. The API keeps
  \<open>element_count \<le> 32\<close>; outside this invariant the C code would index past the array.
\<close>

record dashboard =
  dash_name :: string
  element_count :: u32
  elements :: "dash_element list"

definition dashboard_inv :: "dashboard \<Rightarrow> bool" where
  "dashboard_inv d \<longleftrightarrow> length (elements d) = 32 \<and> element_count d \<le> 32"

text \<open>
  \<^verbatim>\<open>str_copy\<close> copies until the terminating NUL or \<open>max_len - 1\<close> characters; a C string
  is the list of its characters before the NUL.
\<close>

definition str_copy :: "string \<Rightarrow> u32 \<Rightarrow> string" where
  "str_copy src max_len = take (unat (max_len - 1)) src"

definition dashboard_init :: "dashboard \<Rightarrow> string \<Rightarrow> dashboard" where
  "dashboard_init dash name = dash\<lparr>dash_name := str_copy name 128, element_count := 0\<rparr>"

text \<open>Both mutators return \<^verbatim>\<open>void\<close>: the updated dashboard is all a caller gets back.\<close>

definition dashboard_add_element :: "dashboard \<Rightarrow> dash_element \<Rightarrow> dashboard" where
  "dashboard_add_element dash element =
     (if element_count dash < 32
      then dash\<lparr>elements := (elements dash)[unat (element_count dash) := element],
                element_count := element_count dash + 1\<rparr>
      else dash)"

definition dashboard_update_value :: "dashboard \<Rightarrow> u32 \<Rightarrow> f32 \<Rightarrow> dashboard" where
  "dashboard_update_value dash element_id v =
     (if element_id < element_count dash
      then dash\<lparr>elements := (elements dash)
                  [unat element_id := (elements dash ! unat element_id)\<lparr>elem_value := v\<rparr>]\<rparr>
      else dash)"

section \<open>Renderer\<close>

text \<open>
  A render step either yields the next framebuffer or has no defined result (\<open>None\<close>):
  the conversion of the fill width may be undefined, and the grid loop of a graph may
  never leave.
\<close>

text \<open>The fill fraction of \<^verbatim>\<open>render_gauge\<close>, with its two clamping statements.\<close>

definition gauge_percentage :: "dash_element \<Rightarrow> f32" where
  "gauge_percentage elem =
     (let percentage = f32_div (f32_sub (elem_value elem) (elem_min_value elem))
                               (f32_sub (elem_max_value elem) (elem_min_value elem));
          percentage = (if f32_lt percentage (Finite 0) then Finite 0 else percentage)
      in if f32_gt percentage (Finite 1) then Finite 1 else percentage)"

definition gauge_fill_width :: "dash_element \<Rightarrow> u32 option" where
  "gauge_fill_width elem =
     f32_to_u32 (f32_mul (gauge_percentage elem) (u32_to_f32 (elem_width elem - 4)))"

definition render_gauge :: "dash_element \<Rightarrow> framebuffer \<Rightarrow> framebuffer option" where
  "render_gauge elem fb =
     (let fb1 = fb_draw_filled_rect fb (elem_x elem) (elem_y elem) (elem_width elem)
                  (elem_height elem) COLOR_BLACK;
          fb2 = fb_draw_rect fb1 (elem_x elem) (elem_y elem) (elem_width elem)
                  (elem_height elem) (elem_color elem)
      in case gauge_fill_width elem of
           None \<Rightarrow> None
         | Some fill_width \<Rightarrow>
             Some (if 0 < fill_width
                   then fb_draw_filled_rect fb2 (elem_x elem + 2) (elem_y elem + 2) fill_width
                          (elem_height elem - 4) (elem_color elem)
                   else fb2))"

definition render_label :: "dash_element \<Rightarrow> framebuffer \<Rightarrow> framebuffer" where
  "render_label elem fb =
     fb_draw_rect
       (fb_draw_filled_rect fb (elem_x elem) (elem_y elem) (elem_width elem) (elem_height elem)
          COLOR_BLACK)
       (elem_x elem) (elem_y elem) (elem_width elem) (elem_height elem) (elem_color elem)"

text \<open>The fraction of \<^verbatim>\<open>render_value\<close> is not clamped. The literals are \<^verbatim>\<open>0.8f\<close> and \<^verbatim>\<open>0.6f\<close>.\<close>

definition value_percentage :: "dash_element \<Rightarrow> f32" where
  "value_percentage elem =
     f32_div (f32_sub (elem_value elem) (elem_min_value elem))
             (f32_sub (elem_max_value elem) (elem_min_value elem))"

definition indicator_color :: "dash_element \<Rightarrow> u32" where
  "indicator_color elem =
     (if f32_gt (value_percentage elem) (f32_round (8 / 10)) then COLOR_RED
      else if f32_gt (value_percentage elem) (f32_round (6 / 10)) then COLOR_YELLOW
      else COLOR_GREEN)"

definition render_value :: "dash_element \<Rightarrow> framebuffer \<Rightarrow> framebuffer" where
  "render_value elem fb =
     fb_draw_filled_rect
       (fb_draw_rect
          (fb_draw_filled_rect fb (elem_x elem) (elem_y elem) (elem_width elem)
             (elem_height elem) COLOR_BLACK)
          (elem_x elem) (elem_y elem) (elem_width elem) (elem_height elem) (elem_color elem))
       (elem_x elem + 5) (elem_y elem + 5) 20 (elem_height elem - 10) (indicator_color elem)"

text \<open>
  The dotted grid line \<^verbatim>\<open>for (x = ...; x < bound; x += 4)\<close>: the step can wrap past
  the bound, so the loop need not end.
\<close>

partial_function (option) graph_dots ::
  "framebuffer \<Rightarrow> u32 \<Rightarrow> u32 \<Rightarrow> u32 \<Rightarrow> framebuffer option" where
  "graph_dots fb x bound y_pos =
     (if x < bound then graph_dots (fb_draw_pixel fb x y_pos COLOR_GRAY) (x + 4) bound y_pos
      else Some fb)"

definition render_graph :: "dash_element \<Rightarrow> framebuffer \<Rightarrow> framebuffer option" where
  "render_graph elem fb =
     for_loop 1 4
       (\<lambda>i s. Option.bind s (\<lambda>fb'.
          graph_dots fb' (elem_x elem + 2) (elem_x elem + elem_width elem - 2)
            (elem_y elem + (elem_height elem * i) div 4)))
       (Some (fb_draw_rect
          (fb_draw_filled_rect fb (elem_x elem) (elem_y elem) (elem_width elem)
             (elem_height elem) COLOR_BLACK)
          (elem_x elem) (elem_y elem) (elem_width elem) (elem_height elem) (elem_color elem)))"

definition render_element :: "dash_element \<Rightarrow> framebuffer \<Rightarrow> framebuffer option" where
  "render_element elem fb =
     (case elem_type elem of
        DASH_ELEMENT_GAUGE \<Rightarrow> render_gauge elem fb
      | DASH_ELEMENT_LABEL \<Rightarrow> Some (render_label elem fb)
      | DASH_ELEMENT_VALUE \<Rightarrow> Some (render_value elem fb)
      | DASH_ELEMENT_GRAPH \<Rightarrow> render_graph elem fb)"

definition dashboard_render :: "dashboard \<Rightarrow> framebuffer \<Rightarrow> framebuffer option" where
  "dashboard_render dash fb =
     for_loop 0 (element_count dash)
       (\<lambda>i s. Option.bind s (render_element (elements dash ! unat i)))
       (Some (fb_clear fb COLOR_BLACK))"

text \<open>
  A render step that only stores into the pixel memory, at cells and with colors that do
  not depend on what the memory held: it overrides the memory on a fixed set of cells.
  A step is steady on a handle when it has no result for any memory content, or is such
  an overriding for every memory content.
\<close>

definition paints :: "framebuffer \<Rightarrow> (framebuffer \<Rightarrow> framebuffer option) \<Rightarrow> bool" where
  "paints fb f \<longleftrightarrow>
     (\<exists>c W. \<forall>mem. f (fb\<lparr>fb_mem := mem\<rparr>) = Some (fb\<lparr>fb_mem := override_on mem c W\<rparr>))"

definition steady :: "framebuffer \<Rightarrow> (framebuffer \<Rightarrow> framebuffer option) \<Rightarrow> bool" where
  "steady fb f \<longleftrightarrow> (\<forall>mem. f (fb\<lparr>fb_mem := mem\<rparr>) = None) \<or> paints fb f"


section \<open>The fill width in exact arithmetic\<close>

text \<open>
  The fill width as the specification words it, over the rational numbers: the fraction
  \<open>(value - min) / (max - min)\<close> clamped to \<open>0 \<dots> 1\<close>, times \<open>width - 4\<close>. It is the
  yardstick for \<open>gauge_fill_width\<close>, which computes in single precision.
\<close>

definition clamp :: "rat \<Rightarrow> rat \<Rightarrow> rat \<Rightarrow> rat" where
  "clamp q lo hi = max lo (min hi q)"

definition spec_fill_width :: "dash_element \<Rightarrow> rat" where
  "spec_fill_width elem =
     clamp ((f32_val (elem_value elem) - f32_val (elem_min_value elem)) /
            (f32_val (elem_max_value elem) - f32_val (elem_min_value elem))) 0 1 *
     (rat_of_nat (unat (elem_width elem)) - 4)"

text \<open>
  No operation of the fill width computation rounds: the two differences, the quotient,
  \<^verbatim>\<open>(float)(width - 4)\<close> and the product are single-precision numbers as they stand.
\<close>

definition unrounded :: "dash_element \<Rightarrow> bool" where
  "unrounded elem \<longleftrightarrow>
     (let v = f32_val (elem_value elem); mn = f32_val (elem_min_value elem);
          mx = f32_val (elem_max_value elem); w = rat_of_nat (unat (elem_width elem - 4))
      in is_finite (elem_value elem) \<and> is_finite (elem_min_value elem) \<and>
         is_finite (elem_max_value elem) \<and>
         representable (Finite (v - mn)) \<and> representable (Finite (mx - mn)) \<and>
         representable (Finite ((v - mn) / (mx - mn))) \<and> representable (Finite w) \<and>
         representable (Finite (clamp ((v - mn) / (mx - mn)) 0 1 * w)))"

section \<open>Sample data\<close>

text \<open>A small screen whose rows are padded: 4 visible pixels in a row of 8 cells.\<close>

definition small_screen :: framebuffer where
  "small_screen = \<lparr>fb_width = 4, fb_height = 3, fb_pitch = 32, fb_buffer = 0x3C100000,
     fb_mem = (\<lambda>k. 0)\<rparr>"

text \<open>The elements \<^verbatim>\<open>gauge1\<close> and \<^verbatim>\<open>label1\<close> of \<^verbatim>\<open>kernel_main\<close>.\<close>

definition gauge1 :: dash_element where
  "gauge1 = \<lparr>elem_type = DASH_ELEMENT_GAUGE, elem_x = 50, elem_y = 50, elem_width = 400,
     elem_height = 60, elem_color = COLOR_GREEN, elem_label = [],
     elem_value = Finite 75, elem_min_value = Finite 0, elem_max_value = Finite 100\<rparr>"

definition label1 :: dash_element where
  "label1 = \<lparr>elem_type = DASH_ELEMENT_LABEL, elem_x = 50, elem_y = 500, elem_width = 650,
     elem_height = 50, elem_color = COLOR_WHITE, elem_label = [],
     elem_value = Finite 0, elem_min_value = Finite 0, elem_max_value = Finite 0\<rparr>"

text \<open>The element \<^verbatim>\<open>value1\<close> of \<^verbatim>\<open>kernel_main\<close>.\<close>

definition value1 :: dash_element where
  "value1 = \<lparr>elem_type = DASH_ELEMENT_VALUE, elem_x = 500, elem_y = 50, elem_width = 200,
     elem_height = 60, elem_color = COLOR_CYAN, elem_label = [],
     elem_value = Finite 65, elem_min_value = Finite 0, elem_max_value = Finite 100\<rparr>"






text \<open>A gauge over a range with a negative lower end, \<open>-15 \<dots> 30\<close>.\<close>

definition boost_gauge :: dash_element where
  "boost_gauge = gauge1\<lparr>elem_value := Finite 0, elem_min_value := Finite (- 15),
     elem_max_value := Finite 30\<rparr>"

text \<open>A gauge 304 pixels wide at 21 of \<open>0 \<dots> 100\<close>.\<close>

definition narrow_gauge :: dash_element where
  "narrow_gauge = gauge1\<lparr>elem_value := Finite 21, elem_width := 304\<rparr>"

definition two_elements :: dashboard where
  "two_elements = \<lparr>dash_name = ''LibreDash Demo'', element_count = 2,
     elements = gauge1 # label1 # replicate 30 label1\<rparr>"

definition full_dashboard :: dashboard where
  "full_dashboard = \<lparr>dash_name = ''LibreDash Demo'', element_count = 32,
     elements = replicate 32 label1\<rparr>"

text \<open>
  Machines whose firmware answers the posted request at once: the first status read shows
  the mailbox not full, the second shows a response, the data read returns the posted
  value. The three firmwares acknowledge with a buffer address and a pitch, acknowledge
  with the address 0, and report an error.
\<close>

definition booted :: "(u32 \<Rightarrow> (nat \<Rightarrow> u32) \<Rightarrow> (nat \<Rightarrow> u32)) \<Rightarrow> machine" where
  "booted fw = \<lparr>mailbox = (\<lambda>i. 0), mailbox_addr = 0x8F000, mmio_reads = [0, 0, 0x8F008],
     mmio_writes = [], firmware = fw\<rparr>"

definition granting_firmware :: "u32 \<Rightarrow> (nat \<Rightarrow> u32) \<Rightarrow> (nat \<Rightarrow> u32)" where
  "granting_firmware r mb = mb(1 := 0x80000000, 28 := 0xFE402000, 33 := 7680)"

definition null_firmware :: "u32 \<Rightarrow> (nat \<Rightarrow> u32) \<Rightarrow> (nat \<Rightarrow> u32)" where
  "null_firmware r mb = mb(1 := 0x80000000, 28 := 0, 33 := 7680)"

definition failing_firmware :: "u32 \<Rightarrow> (nat \<Rightarrow> u32) \<Rightarrow> (nat \<Rightarrow> u32)" where
  "failing_firmware r mb = mb(1 := 0x80000001)"

section \<open>Loop rule\<close>

lemma for_loop_invariant:
  assumes "P s" and "\<And>j t. j < n \<Longrightarrow> P t \<Longrightarrow> P (body j t)"
  shows "P (for_loop i n body s)"
  using assms
proof (induction i n body s rule: for_loop.induct)
  case (1 i n body s)
  show ?case
  proof (cases "i < n")
    case True
    have "P (body i s)" using True "1.prems" by blast
    then have "P (for_loop (i + 1) n body (body i s))"
      using "1.IH" True "1.prems"(2) by blast
    then show ?thesis using True by (simp add: for_loop.simps [of i])
  next
    case False
    then show ?thesis using "1.prems"(1) by (simp add: for_loop.simps [of i])
  qed
qed

section \<open>Clipping\<close>

lemma clipped_refl: "clipped fb fb"
  by (simp add: clipped_def)

lemma visible_cong:
  "fb_width b = fb_width a \<Longrightarrow> fb_height b = fb_height a \<Longrightarrow> fb_pitch b = fb_pitch a
   \<Longrightarrow> visible b = visible a"
  by (simp add: visible_def)

lemma clipped_trans:
  assumes "clipped a b" and "clipped b c"
  shows "clipped a c"
proof -
  have v: "visible b = visible a"
    using assms(1) by (intro visible_cong) (simp_all add: clipped_def)
  have "k \<in> visible a" if "fb_mem c k \<noteq> fb_mem a k" for k
  proof (cases "fb_mem b k = fb_mem a k")
    case True
    with that have "fb_mem c k \<noteq> fb_mem b k" by simp
    with assms(2) have "k \<in> visible b" by (simp add: clipped_def)
    then show ?thesis by (simp add: v)
  next
    case False
    with assms(1) show ?thesis by (simp add: clipped_def)
  qed
  moreover have "fb_width c = fb_width a" "fb_height c = fb_height a"
    "fb_pitch c = fb_pitch a" "fb_buffer c = fb_buffer a"
    using assms by (simp_all add: clipped_def)
  ultimately show ?thesis
    by (simp add: clipped_def)
qed

lemma clipped_pixel: "clipped fb (fb_draw_pixel fb x y color)"
proof (cases "x \<ge> fb_width fb \<or> y \<ge> fb_height fb")
  case True
  then show ?thesis by (simp add: fb_draw_pixel_def clipped_def)
next
  case False
  then have "y * (fb_pitch fb div 4) + x \<in> visible fb"
    unfolding visible_def by (auto simp: not_le)
  with False show ?thesis by (simp add: fb_draw_pixel_def clipped_def)
qed

lemma clipped_pixel_step: "clipped fb t \<Longrightarrow> clipped fb (fb_draw_pixel t x y color)"
  by (rule clipped_trans [OF _ clipped_pixel])

lemma clipped_row:
  "clipped fb t \<Longrightarrow>
   clipped fb (for_loop i w (\<lambda>i fb'. fb_draw_pixel fb' (x + i) y color) t)"
  by (rule for_loop_invariant [where P = "clipped fb"]) (simp_all add: clipped_pixel_step)

lemma clipped_filled_rect: "clipped fb (fb_draw_filled_rect fb x y w h color)"
  unfolding fb_draw_filled_rect_def
  by (rule for_loop_invariant [where P = "clipped fb"]) (simp_all add: clipped_refl clipped_row)

lemma clipped_rect: "clipped fb (fb_draw_rect fb x y w h color)"
  unfolding fb_draw_rect_def
  by (rule for_loop_invariant [where P = "clipped fb"],
      rule for_loop_invariant [where P = "clipped fb"])
     (simp_all add: clipped_refl clipped_pixel_step)

section \<open>Rounding\<close>

lemma rhe_cases: "round_half_even q = \<lfloor>q\<rfloor> \<or> round_half_even q = \<lfloor>q\<rfloor> + 1"
  by (simp add: round_half_even_def Let_def)

lemma rhe_of_int: "round_half_even (of_int n) = n"
  by (simp add: round_half_even_def Let_def)

lemma rhe_mono:
  assumes "a \<le> b"
  shows "round_half_even a \<le> round_half_even b"
proof (cases "\<lfloor>a\<rfloor> < \<lfloor>b\<rfloor>")
  case True
  have "round_half_even a \<le> \<lfloor>a\<rfloor> + 1"
    using rhe_cases [of a] by auto
  moreover have "\<lfloor>b\<rfloor> \<le> round_half_even b"
    using rhe_cases [of b] by auto
  ultimately show ?thesis
    using True by linarith
next
  case False
  then have eq: "\<lfloor>a\<rfloor> = \<lfloor>b\<rfloor>"
    using floor_mono [OF assms] by linarith
  have "a - of_int \<lfloor>b\<rfloor> \<le> b - of_int \<lfloor>b\<rfloor>"
    using assms by simp
  then show ?thesis
    unfolding round_half_even_def Let_def eq by auto
qed

lemma rhe_near:
  assumes "\<bar>q - of_int n\<bar> < 1 / 2"
  shows "round_half_even q = n"
proof (cases "of_int n \<le> q")
  case True
  then have "\<lfloor>q\<rfloor> = n"
    using assms by (intro floor_unique) auto
  then show ?thesis
    using assms True by (simp add: round_half_even_def Let_def)
next
  case False
  then have "\<lfloor>q\<rfloor> = n - 1"
    using assms by (intro floor_unique) auto
  then show ?thesis
    using assms False by (simp add: round_half_even_def Let_def)
qed

lemma scale_down_spec:
  "scale_down m k = (s, j) \<Longrightarrow>
     s * 2 powi j = m * 2 powi k \<and> k \<le> j \<and> (k \<le> 104 \<longrightarrow> j \<le> 104) \<and>
     (j < 104 \<longrightarrow> s < 2 ^ 24) \<and> (2 ^ 23 \<le> m \<longrightarrow> 2 ^ 23 \<le> s)"
proof (induction m k rule: scale_down.induct)
  case (1 m k)
  show ?case
  proof (cases "k < 104 \<and> 2 ^ 24 \<le> m")
    case True
    then have "scale_down (m / 2) (k + 1) = (s, j)"
      using "1.prems" by (simp add: scale_down.simps [of m k])
    from "1.IH" [OF True this]
    have IH: "s * 2 powi j = m / 2 * 2 powi (k + 1)" "k + 1 \<le> j" "k + 1 \<le> 104 \<longrightarrow> j \<le> 104"
      "j < 104 \<longrightarrow> s < 2 ^ 24" "2 ^ 23 \<le> m / 2 \<longrightarrow> 2 ^ 23 \<le> s"
      by simp_all
    have "m / 2 * 2 powi (k + 1) = m * (2::rat) powi k"
      by (simp add: power_int_add)
    moreover have "2 ^ 23 \<le> m / 2"
      using True by simp
    ultimately show ?thesis
      using IH True by auto
  next
    case False
    then have "s = m" "j = k"
      using "1.prems" by (auto simp: scale_down.simps [of m k] split: if_splits)
    then show ?thesis
      using False by auto
  qed
qed

lemma scale_up_spec:
  "scale_up m k = (s, j) \<Longrightarrow>
     s * 2 powi j = m * 2 powi k \<and> j \<le> k \<and> (- 149 \<le> k \<longrightarrow> - 149 \<le> j) \<and>
     (- 149 < j \<longrightarrow> 2 ^ 23 \<le> s) \<and> (m < 2 ^ 24 \<longrightarrow> s < 2 ^ 24)"
proof (induction m k rule: scale_up.induct)
  case (1 m k)
  show ?case
  proof (cases "- 149 < k \<and> m < 2 ^ 23")
    case True
    then have "scale_up (m * 2) (k - 1) = (s, j)"
      using "1.prems" by (simp add: scale_up.simps [of m k])
    from "1.IH" [OF True this]
    have IH: "s * 2 powi j = m * 2 * 2 powi (k - 1)" "j \<le> k - 1" "- 149 \<le> k - 1 \<longrightarrow> - 149 \<le> j"
      "- 149 < j \<longrightarrow> 2 ^ 23 \<le> s" "m * 2 < 2 ^ 24 \<longrightarrow> s < 2 ^ 24"
      by simp_all
    have "m * 2 * 2 powi (k - 1) = m * (2::rat) powi k"
      by (simp add: power_int_diff)
    moreover have "m * 2 < 2 ^ 24"
      using True by simp
    ultimately show ?thesis
      using IH True by auto
  next
    case False
    then have "s = m" "j = k"
      using "1.prems" by (auto simp: scale_up.simps [of m k] split: if_splits)
    then show ?thesis
      using False by auto
  qed
qed

lemma normalise_spec:
  assumes "normalise m = (s, k)"
  shows "s * 2 powi k = m" "- 149 \<le> k" "k \<le> 104" "k < 104 \<Longrightarrow> s < 2 ^ 24"
    "- 149 < k \<Longrightarrow> 2 ^ 23 \<le> s"
proof -
  have "s * 2 powi k = m \<and> - 149 \<le> k \<and> k \<le> 104 \<and> (k < 104 \<longrightarrow> s < 2 ^ 24) \<and>
    (- 149 < k \<longrightarrow> 2 ^ 23 \<le> s)"
  proof (cases "2 ^ 24 \<le> m")
    case True
    then have "scale_down m 0 = (s, k)"
      using assms by (simp add: normalise_def)
    from scale_down_spec [OF this] True show ?thesis
      by auto
  next
    case False
    then have "scale_up m 0 = (s, k)"
      using assms by (simp add: normalise_def)
    from scale_up_spec [OF this] False show ?thesis
      by auto
  qed
  then show "s * 2 powi k = m" "- 149 \<le> k" "k \<le> 104" "k < 104 \<Longrightarrow> s < 2 ^ 24"
    "- 149 < k \<Longrightarrow> 2 ^ 23 \<le> s"
    by simp_all
qed

lemma binade_step:
  assumes "k < j"
  shows "2 ^ 24 * (2::rat) powi k \<le> 2 ^ 23 * 2 powi j"
proof -
  have "(2::rat) powi (k + 1) \<le> 2 powi j"
    using assms by (intro power_int_increasing) auto
  then show ?thesis
    by (simp add: power_int_add)
qed

lemma pos2: "0 < (2::rat) powi k"
  by (simp add: zero_less_power_int)

lemma exponent_mono:
  assumes "normalise a = (sa, ka)" and "normalise b = (sb, kb)" and "a \<le> b"
  shows "ka \<le> kb"
proof (rule ccontr)
  assume "\<not> ka \<le> kb"
  then have lt: "kb < ka" by simp
  note A = normalise_spec [OF assms(1)] and B = normalise_spec [OF assms(2)]
  have "kb < 104" "- 149 < ka"
    using lt A(3) B(2) by linarith+
  then have "sb < 2 ^ 24" "2 ^ 23 \<le> sa"
    using A(5) B(4) by simp_all
  then have "b < 2 ^ 24 * 2 powi kb" "2 ^ 23 * 2 powi ka \<le> a"
    using A(1) B(1) pos2 [of ka] pos2 [of kb] by (auto simp: mult_strict_right_mono mult_right_mono)
  with binade_step [OF lt] assms(3) show False
    by linarith
qed

lemma round_mag_mono:
  assumes "a \<le> b"
  shows "round_mag a \<le> round_mag b"
proof -
  obtain sa ka where na: "normalise a = (sa, ka)" by (cases "normalise a")
  obtain sb kb where nb: "normalise b = (sb, kb)" by (cases "normalise b")
  note A = normalise_spec [OF na] and B = normalise_spec [OF nb]
  have le: "ka \<le> kb"
    by (rule exponent_mono [OF na nb assms])
  show ?thesis
  proof (cases "ka = kb")
    case True
    have "sa * 2 powi kb \<le> sb * 2 powi kb"
      using A(1) B(1) assms True by simp
    then have "sa \<le> sb"
      using pos2 [of kb] by (simp add: mult_le_cancel_right)
    then have "(of_int (round_half_even sa) :: rat) \<le> of_int (round_half_even sb)"
      using rhe_mono by simp
    then show ?thesis
      using pos2 [of kb] True by (simp add: round_mag_def na nb mult_right_mono)
  next
    case False
    with le have lt: "ka < kb" by simp
    then have "ka < 104" "- 149 < kb"
      using A(2) B(3) by linarith+
    then have "sa < 2 ^ 24" "2 ^ 23 \<le> sb"
      using A(4) B(5) by simp_all
    then have "round_half_even sa \<le> round_half_even (of_int (2 ^ 24))"
      "round_half_even (of_int (2 ^ 23)) \<le> round_half_even sb"
      by (intro rhe_mono; simp)+
    then have "(of_int (round_half_even sa) :: rat) \<le> 2 ^ 24"
      "(2 ^ 23 :: rat) \<le> of_int (round_half_even sb)"
      unfolding rhe_of_int by (simp_all flip: of_int_le_iff)
    then have "of_int (round_half_even sa) * 2 powi ka \<le> 2 ^ 24 * (2::rat) powi ka"
      "2 ^ 23 * (2::rat) powi kb \<le> of_int (round_half_even sb) * 2 powi kb"
      using pos2 [of ka] pos2 [of kb] by (simp_all add: mult_right_mono)
    with binade_step [OF lt]
    have "of_int (round_half_even sa) * 2 powi ka \<le> of_int (round_half_even sb) * (2::rat) powi kb"
      by linarith
    then show ?thesis
      by (simp add: round_mag_def na nb)
  qed
qed

lemma normalise_unique:
  assumes "- 149 \<le> k" "k \<le> 104" "k < 104 \<longrightarrow> m < 2 ^ 24 * 2 powi k"
    "- 149 < k \<longrightarrow> 2 ^ 23 * 2 powi k \<le> m"
  shows "normalise m = (m / 2 powi k, k)"
proof -
  obtain s j where n: "normalise m = (s, j)" by (cases "normalise m")
  note N = normalise_spec [OF n]
  have "j = k"
  proof (rule ccontr)
    assume ne: "j \<noteq> k"
    show False
    proof (cases "j < k")
      case True
      then have "j < 104" "- 149 < k" using N(2) assms(2) by linarith+
      then have "s < 2 ^ 24" "2 ^ 23 * 2 powi k \<le> m" using N(4) assms(4) by simp_all
      then have "m < 2 ^ 24 * 2 powi j"
        using N(1) pos2 [of j] by (auto simp: mult_strict_right_mono)
      with binade_step [OF True] \<open>2 ^ 23 * 2 powi k \<le> m\<close> show False by linarith
    next
      case False
      with ne have lt: "k < j" by simp
      then have "k < 104" "- 149 < j" using N(3) assms(1) by linarith+
      then have "m < 2 ^ 24 * 2 powi k" "2 ^ 23 \<le> s" using N(5) assms(3) by simp_all
      then have "2 ^ 23 * 2 powi j \<le> m"
        using N(1) pos2 [of j] by (auto simp: mult_right_mono)
      with binade_step [OF lt] \<open>m < 2 ^ 24 * 2 powi k\<close> show False by linarith
    qed
  qed
  moreover have "s = m / 2 powi j"
    using N(1) pos2 [of j] by (simp add: field_simps)
  ultimately show ?thesis
    using n by simp
qed

lemma round_mag_cert:
  assumes "- 149 \<le> k" "k \<le> 104" "k < 104 \<longrightarrow> m < 2 ^ 24 * 2 powi k"
    "- 149 < k \<longrightarrow> 2 ^ 23 * 2 powi k \<le> m" "\<bar>m / 2 powi k - of_int n\<bar> < 1 / 2"
  shows "round_mag m = of_int n * 2 powi k"
  using normalise_unique [OF assms(1-4)] rhe_near [OF assms(5)]
  by (simp add: round_mag_def)


lemma round_mag_0: "round_mag 0 = 0"
  using round_mag_cert [of "- 149" 0 0] by simp

lemma round_mag_nonneg: "0 \<le> m \<Longrightarrow> 0 \<le> round_mag m"
  using round_mag_mono [of 0 m] by (simp add: round_mag_0)

lemma round_mag_int:
  assumes "0 \<le> i" and "i < 2 ^ 24"
  shows "round_mag (of_int i) = of_int i"
proof -
  obtain s k where n: "normalise (of_int i) = (s, k)" by (cases "normalise (rat_of_int i)")
  have "\<not> (2 ^ 24 \<le> rat_of_int i)"
    using assms(2) by (simp add: not_le flip: of_int_less_iff)
  then have "scale_up (of_int i) 0 = (s, k)"
    using n by (simp add: normalise_def)
  from scale_up_spec [OF this] have k: "k \<le> 0" and s: "s * 2 powi k = of_int i"
    by simp_all
  have "s = of_int i * 2 powi (- k)"
    using s pos2 [of k] by (simp add: power_int_minus field_simps)
  also have "\<dots> = of_int (i * 2 ^ nat (- k))"
    using k by (simp add: power_int_def)
  finally have "round_half_even s = i * 2 ^ nat (- k)"
    by (simp only: rhe_of_int)
  then have "round_mag (of_int i) = of_int (i * 2 ^ nat (- k)) * 2 powi k"
    by (simp add: round_mag_def n)
  also have "\<dots> = of_int i * (2 powi (- k) * 2 powi k)"
    using k by (simp add: power_int_def)
  also have "\<dots> = of_int i"
    using pos2 [of k] by (simp add: power_int_minus)
  finally show ?thesis .
qed

lemma f32_round_int:
  assumes "0 \<le> i" and "i < 2 ^ 24"
  shows "f32_round (of_int i) = Finite (of_int i)"
proof -
  have "rat_of_int i < 2 ^ 24"
    using assms(2) by (simp flip: of_int_less_iff)
  then have "rat_of_int i < 2 ^ 128"
    by (rule less_trans) simp
  then show ?thesis
    using assms by (simp add: f32_round_def round_mag_int not_le)
qed

lemma f32_round_cert:
  assumes "0 < q" "- 149 \<le> k" "k \<le> 104" "k < 104 \<longrightarrow> q < 2 ^ 24 * 2 powi k"
    "- 149 < k \<longrightarrow> 2 ^ 23 * 2 powi k \<le> q" "\<bar>q / 2 powi k - of_int n\<bar> < 1 / 2"
    "of_int n * 2 powi k < (2::rat) ^ 128"
  shows "f32_round q = Finite (of_int n * 2 powi k)"
  using round_mag_cert [OF assms(2-6)] assms(1,7)
  by (simp add: f32_round_def not_le)

lemma f32_round_mono:
  assumes "a \<le> b"
  shows "f32_le (f32_round a) (f32_round b)"
proof -
  have nn: "0 \<le> round_mag \<bar>a\<bar>" "0 \<le> round_mag \<bar>b\<bar>"
    by (simp_all add: round_mag_nonneg)
  have pos: "round_mag \<bar>a\<bar> \<le> round_mag \<bar>b\<bar>" if "0 \<le> a"
    using that assms by (intro round_mag_mono) simp
  have neg: "round_mag \<bar>b\<bar> \<le> round_mag \<bar>a\<bar>" if "b \<le> 0"
    using that assms by (intro round_mag_mono) simp
  show ?thesis
  proof (cases "0 \<le> a")
    case True
    with assms have "0 \<le> b" by simp
    with True pos nn show ?thesis
      by (auto simp: f32_round_def f32_le_def Let_def round_mag_0)
  next
    case False
    show ?thesis
    proof (cases "0 \<le> b")
      case True
      with False nn show ?thesis
        by (auto simp: f32_round_def f32_le_def Let_def round_mag_0)
    next
      case b: False
      with False neg nn show ?thesis
        by (auto simp: f32_round_def f32_le_def Let_def round_mag_0)
    qed
  qed
qed

lemma round_mag_min:
  assumes "2 powi (- 149) \<le> m"
  shows "2 powi (- 149) \<le> round_mag m"
proof -
  have "round_mag (2 powi (- 149)) = 2 powi (- 149)"
    using round_mag_cert [of "- 149" "2 powi (- 149)" 1] by simp
  with round_mag_mono [OF assms] show ?thesis by simp
qed

lemma f32_round_pos:
  assumes "2 powi (- 149) \<le> q"
  shows "f32_round q = PosInf \<or> (\<exists>r. f32_round q = Finite r \<and> 0 < r)"
proof -
  have q: "0 < q"
    using assms pos2 [of "- 149"] by linarith
  then have "2 powi (- 149) \<le> round_mag \<bar>q\<bar>"
    using assms by (intro round_mag_min) simp
  then have "0 < round_mag \<bar>q\<bar>"
    using pos2 [of "- 149"] by linarith
  then show ?thesis
    using q by (auto simp: f32_round_def Let_def)
qed

lemma representable_grid:
  assumes "representable (Finite q)"
  shows "\<exists>i::int. q = of_int i * 2 powi (- 149)"
proof -
  obtain s k where n: "normalise \<bar>q\<bar> = (s, k)" by (cases "normalise \<bar>q\<bar>")
  note N = normalise_spec [OF n]
  define j where "j = round_half_even s * 2 ^ nat (k + 149)"
  have "(2::rat) powi k = 2 powi (k + 149) * 2 powi (- 149)"
    by (simp add: power_int_add)
  also have "(2::rat) powi (k + 149) = of_int (2 ^ nat (k + 149))"
    using N(2) by (simp add: power_int_def)
  finally have r: "round_mag \<bar>q\<bar> = of_int j * 2 powi (- 149)"
    by (simp add: round_mag_def n j_def)
  from assms have "q = round_mag \<bar>q\<bar> \<or> q = - round_mag \<bar>q\<bar>"
    by (auto simp: representable_def f32_round_def Let_def split: if_splits)
  then show ?thesis
  proof
    assume "q = round_mag \<bar>q\<bar>"
    with r show ?thesis by metis
  next
    assume "q = - round_mag \<bar>q\<bar>"
    with r have "q = of_int (- j) * 2 powi (- 149)" by simp
    then show ?thesis by blast
  qed
qed

lemma representable_gap:
  assumes "representable (Finite a)" and "representable (Finite b)" and "b < a"
  shows "2 powi (- 149) \<le> a - b"
proof -
  obtain i j :: int where a: "a = of_int i * 2 powi (- 149)" and b: "b = of_int j * 2 powi (- 149)"
    using representable_grid [OF assms(1)] representable_grid [OF assms(2)] by blast
  have "rat_of_int j < of_int i"
    using assms(3) pos2 [of "- 149"] unfolding a b by (simp add: mult_less_cancel_right)
  then have "1 \<le> i - j" by simp
  then have "(1::rat) \<le> of_int (i - j)" by (simp only: of_int_1_le_iff)
  then have "1 * 2 powi (- 149) \<le> rat_of_int (i - j) * 2 powi (- 149)"
    using pos2 [of "- 149"] by (intro mult_right_mono) simp_all
  then show ?thesis
    unfolding a b by (simp add: algebra_simps)
qed


lemma f32_round_0: "f32_round 0 = Finite 0"
  by (simp add: f32_round_def round_mag_0)

lemma f32_round_not_NaN: "f32_round q \<noteq> NaN"
  by (simp add: f32_round_def Let_def)

lemma f32_le_cong:
  "f32_eq a a' \<Longrightarrow> f32_eq b b' \<Longrightarrow> f32_le a' b' \<Longrightarrow> f32_le a b"
  by (auto simp: f32_eq_def f32_le_def)

lemma f32_eq_refl: "a \<noteq> NaN \<Longrightarrow> f32_eq a a"
  by (simp add: f32_eq_def)

lemma f32_add_finite:
  assumes "is_finite a" and "is_finite b"
  shows "f32_eq (f32_add a b) (f32_round (f32_val a + f32_val b))"
proof -
  have "a \<noteq> NaN" "b \<noteq> NaN" "\<not> is_inf a" "\<not> is_inf b"
    using assms by (cases a; cases b; simp)+
  then show ?thesis
    by (simp add: f32_add_def f32_round_0 signed_zero_def f32_eq_def f32_round_not_NaN)
qed

lemma is_finite_neg: "is_finite (f32_neg b) = is_finite b"
  by (cases b) simp_all

lemma f32_val_neg: "f32_val (f32_neg b) = - f32_val b"
  by (cases b) simp_all

lemma f32_sub_finite:
  assumes "is_finite a" and "is_finite b"
  shows "f32_eq (f32_sub a b) (f32_round (f32_val a - f32_val b))"
  using f32_add_finite [of a "f32_neg b"] assms
  by (simp add: f32_sub_def is_finite_neg f32_val_neg)

lemma f32_sub_inf:
  assumes "is_finite b"
  shows "f32_sub PosInf b = PosInf" "f32_sub NegInf b = NegInf"
  using assms by (cases b; simp add: f32_sub_def f32_add_def)+

lemma f32_sub_mono:
  assumes "is_finite b" and "f32_le v1 v2"
  shows "f32_le (f32_sub v1 b) (f32_sub v2 b)"
proof -
  have nn: "v1 \<noteq> NaN" "v2 \<noteq> NaN"
    using assms(2) by (simp_all add: f32_le_def)
  have fin: "f32_sub v b \<noteq> NaN" if "v \<noteq> NaN" for v
  proof (cases "is_finite v")
    case True
    from f32_sub_finite [OF this assms(1)] show ?thesis by (auto simp: f32_eq_def)
  next
    case False
    with that have "v = PosInf \<or> v = NegInf" by (cases v) simp_all
    then show ?thesis using f32_sub_inf [OF assms(1)] by auto
  qed
  show ?thesis
  proof (cases "is_finite v1 \<and> is_finite v2")
    case True
    then have "f32_val v1 \<le> f32_val v2"
      using assms(2) by (cases v1; cases v2; simp add: f32_le_def)
    then have "f32_le (f32_round (f32_val v1 - f32_val b)) (f32_round (f32_val v2 - f32_val b))"
      by (intro f32_round_mono) simp
    with True show ?thesis
      using f32_sub_finite [OF _ assms(1)] f32_le_cong by blast
  next
    case False
    then consider "v1 = NegInf" | "v2 = PosInf"
      using assms(2) nn by (cases v1; cases v2; simp add: f32_le_def)
    then show ?thesis
    proof cases
      case 1
      then show ?thesis
        using fin [OF nn(2)] f32_sub_inf [OF assms(1)]
        by (cases "f32_sub v2 b") (simp_all add: f32_le_def)
    next
      case 2
      then show ?thesis
        using fin [OF nn(1)] f32_sub_inf [OF assms(1)]
        by (cases "f32_sub v1 b") (simp_all add: f32_le_def)
    qed
  qed
qed

lemma f32_div_finite:
  assumes "is_finite a" and "0 < d"
  shows "f32_eq (f32_div a (Finite d)) (f32_round (f32_val a / d))"
proof -
  have "a \<noteq> NaN" "\<not> is_inf a"
    using assms by (cases a; simp)+
  moreover have "is_zero a \<longleftrightarrow> f32_val a = 0"
    using assms(1) by (cases a) simp_all
  ultimately show ?thesis
    using assms(2)
    by (simp add: f32_div_def f32_round_0 signed_zero_def f32_eq_def f32_round_not_NaN)
qed

lemma f32_div_inf:
  assumes "0 < d"
  shows "f32_div PosInf (Finite d) = PosInf" "f32_div NegInf (Finite d) = NegInf"
  using assms by (simp_all add: f32_div_def signed_inf_def)

lemma f32_div_mono:
  assumes "0 < d" and "f32_le n1 n2"
  shows "f32_le (f32_div n1 (Finite d)) (f32_div n2 (Finite d))"
proof -
  have nn: "n1 \<noteq> NaN" "n2 \<noteq> NaN"
    using assms(2) by (simp_all add: f32_le_def)
  have fin: "f32_div v (Finite d) \<noteq> NaN" if "v \<noteq> NaN" for v
  proof (cases "is_finite v")
    case True
    from f32_div_finite [OF this assms(1)] show ?thesis by (auto simp: f32_eq_def)
  next
    case False
    with that have "v = PosInf \<or> v = NegInf" by (cases v) simp_all
    then show ?thesis using f32_div_inf [OF assms(1)] by auto
  qed
  show ?thesis
  proof (cases "is_finite n1 \<and> is_finite n2")
    case True
    then have "f32_val n1 \<le> f32_val n2"
      using assms(2) by (cases n1; cases n2; simp add: f32_le_def)
    then have "f32_le (f32_round (f32_val n1 / d)) (f32_round (f32_val n2 / d))"
      using assms(1) by (intro f32_round_mono) (simp add: divide_right_mono)
    with True show ?thesis
      using f32_div_finite [OF _ assms(1)] f32_le_cong by blast
  next
    case False
    then consider "n1 = NegInf" | "n2 = PosInf"
      using assms(2) nn by (cases n1; cases n2; simp add: f32_le_def)
    then show ?thesis
    proof cases
      case 1
      then show ?thesis
        using fin [OF nn(2)] f32_div_inf [OF assms(1)]
        by (cases "f32_div n2 (Finite d)") (simp_all add: f32_le_def)
    next
      case 2
      then show ?thesis
        using fin [OF nn(1)] f32_div_inf [OF assms(1)]
        by (cases "f32_div n1 (Finite d)") (simp_all add: f32_le_def)
    qed
  qed
qed

text \<open>The two clamping statements of the gauge.\<close>

lemma clamp_mono:
  assumes "f32_le p1 p2"
  shows "f32_le
    (let p = (if f32_lt p1 (Finite 0) then Finite 0 else p1) in if f32_gt p (Finite 1) then Finite 1 else p)
    (let p = (if f32_lt p2 (Finite 0) then Finite 0 else p2) in if f32_gt p (Finite 1) then Finite 1 else p)"
  using assms
  by (cases p1; cases p2) (auto simp: f32_le_def f32_lt_def f32_gt_def Let_def)

lemma f32_sub_pos:
  assumes "representable a" "representable b" "is_finite a" "is_finite b" "f32_lt b a"
  shows "f32_sub a b = PosInf \<or> (\<exists>r. f32_sub a b = Finite r \<and> 0 < r)"
proof -
  have lt: "f32_val b < f32_val a"
    using assms(3-5) by (cases a; cases b; simp add: f32_lt_def)
  have ra: "representable (Finite (f32_val a))"
    using assms(1,3) by (cases a) (simp_all add: representable_def f32_round_0)
  have rb: "representable (Finite (f32_val b))"
    using assms(2,4) by (cases b) (simp_all add: representable_def f32_round_0)
  have gap: "2 powi (- 149) \<le> f32_val a - f32_val b"
    by (rule representable_gap [OF ra rb lt])
  have "f32_val a + f32_val (f32_neg b) \<noteq> 0"
    using lt by (simp add: f32_val_neg)
  moreover have "a \<noteq> NaN" "f32_neg b \<noteq> NaN" "\<not> is_inf a" "\<not> is_inf (f32_neg b)"
    using assms(3,4) by (cases a; cases b; simp)+
  ultimately have "f32_sub a b = f32_round (f32_val a - f32_val b)"
    by (simp add: f32_sub_def f32_add_def f32_val_neg)
  with f32_round_pos [OF gap] show ?thesis by simp
qed


lemma f32_round_neg_int:
  assumes "0 < i" and "i < 2 ^ 24"
  shows "f32_round (- of_int i) = Finite (- of_int i)"
proof -
  have "rat_of_int i < 2 ^ 24"
    using assms(2) by (simp flip: of_int_less_iff)
  then have "rat_of_int i < 2 ^ 128"
    by (rule less_trans) simp
  moreover have "round_mag (rat_of_int i) = of_int i"
    using assms by (intro round_mag_int) simp_all
  ultimately show ?thesis
    using assms(1) by (simp add: f32_round_def not_le)
qed

lemma f32_sub_self:
  assumes "is_finite a"
  shows "f32_sub a a = Finite 0"
  using assms by (cases a) (simp_all add: f32_sub_def f32_add_def signed_zero_def)

lemma is_finite_sub:
  assumes "is_finite (f32_sub a b)"
  shows "is_finite a \<and> is_finite b"
  using assms by (cases a; cases b; simp add: f32_sub_def f32_add_def split: if_splits)

lemma round_mag_idem: "round_mag (round_mag m) = round_mag m"
proof -
  obtain s k where n: "normalise m = (s, k)" by (cases "normalise m")
  note N = normalise_spec [OF n]
  define i where "i = round_half_even s"
  have r: "round_mag m = of_int i * 2 powi k"
    by (simp add: round_mag_def n i_def)
  have lo: "2 ^ 23 \<le> rat_of_int i" if "- 149 < k"
  proof -
    have "round_half_even (of_int (2 ^ 23)) \<le> round_half_even s"
      using N(5) [OF that] by (intro rhe_mono) simp
    then show ?thesis
      unfolding rhe_of_int i_def by (simp flip: of_int_le_iff)
  qed
  have hi: "rat_of_int i \<le> 2 ^ 24" if "k < 104"
  proof -
    have "round_half_even s \<le> round_half_even (of_int (2 ^ 24))"
      using N(4) [OF that] by (intro rhe_mono) simp
    then show ?thesis
      unfolding rhe_of_int i_def by (simp flip: of_int_le_iff)
  qed
  show ?thesis
  proof (cases "k < 104 \<and> rat_of_int i = 2 ^ 24")
    case True
    then have eq: "round_mag m = of_int (2 ^ 23) * 2 powi (k + 1)"
      by (simp add: r power_int_add)
    have "round_mag (of_int (2 ^ 23) * 2 powi (k + 1)) = of_int (2 ^ 23) * 2 powi (k + 1)"
      using True N(2) pos2 [of "k + 1"]
      by (intro round_mag_cert) (auto simp: mult_strict_right_mono)
    then show ?thesis
      by (simp only: eq)
  next
    case False
    have "round_mag (of_int i * 2 powi k) = of_int i * 2 powi k"
    proof (rule round_mag_cert)
      show "- 149 \<le> k" "k \<le> 104" by (rule N(2), rule N(3))
      show "k < 104 \<longrightarrow> rat_of_int i * 2 powi k < 2 ^ 24 * 2 powi k"
        using False hi pos2 [of k] by (auto simp: mult_strict_right_mono)
      show "- 149 < k \<longrightarrow> 2 ^ 23 * 2 powi k \<le> rat_of_int i * 2 powi k"
        using lo pos2 [of k] by (auto simp: mult_right_mono)
      show "\<bar>rat_of_int i * 2 powi k / 2 powi k - rat_of_int i\<bar> < 1 / 2"
        using pos2 [of k] by simp
    qed
    then show ?thesis
      by (simp only: r)
  qed
qed

lemma representable_round: "representable (f32_round q)"
proof -
  have "round_mag \<bar>round_mag \<bar>q\<bar>\<bar> = round_mag \<bar>q\<bar>"
    using round_mag_nonneg [of "\<bar>q\<bar>"] by (simp add: round_mag_idem)
  then show ?thesis
    using round_mag_nonneg [of "\<bar>q\<bar>"]
    by (auto simp: representable_def f32_round_def Let_def round_mag_0)
qed




lemma f32_round_neg:
  assumes "q \<le> - (2 powi (- 149))"
  shows "f32_round q = NegInf \<or> (\<exists>r. f32_round q = Finite r \<and> r < 0)"
proof -
  have q: "q < 0"
    using assms pos2 [of "- 149"] by linarith
  then have "2 powi (- 149) \<le> round_mag \<bar>q\<bar>"
    using assms by (intro round_mag_min) simp
  then have "0 < round_mag \<bar>q\<bar>"
    using pos2 [of "- 149"] by linarith
  then show ?thesis
    using q by (auto simp: f32_round_def Let_def)
qed

lemma f32_sub_neg:
  assumes "representable a" "representable b" "is_finite a" "is_finite b" "f32_lt a b"
  shows "f32_sub a b = NegInf \<or> (\<exists>r. f32_sub a b = Finite r \<and> r < 0)"
proof -
  have lt: "f32_val a < f32_val b"
    using assms(3-5) by (cases a; cases b; simp add: f32_lt_def)
  have ra: "representable (Finite (f32_val a))"
    using assms(1,3) by (cases a) (simp_all add: representable_def f32_round_0)
  have rb: "representable (Finite (f32_val b))"
    using assms(2,4) by (cases b) (simp_all add: representable_def f32_round_0)
  have gap: "f32_val a - f32_val b \<le> - (2 powi (- 149))"
    using representable_gap [OF rb ra lt] by simp
  have "f32_val a + f32_val (f32_neg b) \<noteq> 0"
    using lt by (simp add: f32_val_neg)
  moreover have "a \<noteq> NaN" "f32_neg b \<noteq> NaN" "\<not> is_inf a" "\<not> is_inf (f32_neg b)"
    using assms(3,4) by (cases a; cases b; simp)+
  ultimately have "f32_sub a b = f32_round (f32_val a - f32_val b)"
    by (simp add: f32_sub_def f32_add_def f32_val_neg)
  with f32_round_neg [OF gap] show ?thesis by simp
qed


text \<open>The literals of the sources that are not whole numbers.\<close>

lemma f32_0_75: "f32_round (3 / 4) = Finite (3 / 4)"
  using f32_round_cert [of "3 / 4" "- 24" 12582912] by simp

lemma f32_0_8: "f32_round (4 / 5) = Finite (13421773 / 16777216)"
  using f32_round_cert [of "4 / 5" "- 24" 13421773] by simp

lemma f32_0_6: "f32_round (3 / 5) = Finite (5033165 / 8388608)"
  using f32_round_cert [of "3 / 5" "- 24" 10066330] by simp

lemma f32_0_85: "f32_round (17 / 20) = Finite (7130317 / 8388608)"
  using f32_round_cert [of "17 / 20" "- 24" 14260634] by simp

lemma f32_0_65: "f32_round (13 / 20) = Finite (5452595 / 8388608)"
  using f32_round_cert [of "13 / 20" "- 24" 10905190] by simp

section \<open>Claims about the drawing primitives\<close>

text \<open>
  C2. \<open>set_pixel\<close> (\<^verbatim>\<open>fb_draw_pixel\<close>) returns the framebuffer untouched when
  \<open>x \<ge> width\<close> or \<open>y \<ge> height\<close>; for in-bounds coordinates it stores the color in
  cell \<open>y * (pitch / 4) + x\<close> and changes nothing else; the write at
  \<open>(width - 1, height - 1)\<close> takes effect; the call at \<open>(width, 0)\<close> leaves the whole
  buffer as it was.
\<close>

theorem fb_draw_pixel_clips:
  "(fb_width fb \<le> x \<or> fb_height fb \<le> y \<longrightarrow> fb_draw_pixel fb x y color = fb) \<and>
   (x < fb_width fb \<and> y < fb_height fb \<longrightarrow>
      fb_draw_pixel fb x y color =
        fb\<lparr>fb_mem := (fb_mem fb)(y * (fb_pitch fb div 4) + x := color)\<rparr>) \<and>
   (fb_width fb \<noteq> 0 \<and> fb_height fb \<noteq> 0 \<longrightarrow>
      fb_mem (fb_draw_pixel fb (fb_width fb - 1) (fb_height fb - 1) color)
        ((fb_height fb - 1) * (fb_pitch fb div 4) + (fb_width fb - 1)) = color) \<and>
   fb_draw_pixel fb (fb_width fb) 0 color = fb"
proof -
  have "fb_width fb - 1 < fb_width fb" if "fb_width fb \<noteq> 0"
    using that by (simp add: word_less_nat_alt unat_minus_one unat_gt_0)
  moreover have "fb_height fb - 1 < fb_height fb" if "fb_height fb \<noteq> 0"
    using that by (simp add: word_less_nat_alt unat_minus_one unat_gt_0)
  ultimately show ?thesis
    by (auto simp: fb_draw_pixel_def not_le)
qed

theorem fb_draw_pixel_clips_witness:
  "(fb_width small_screen \<le> 4 \<or> fb_height small_screen \<le> 0) \<and>
   fb_draw_pixel small_screen 4 0 9 = small_screen \<and>
   (1 < fb_width small_screen \<and> 2 < fb_height small_screen) \<and>
   fb_draw_pixel small_screen 1 2 9 = small_screen\<lparr>fb_mem := (fb_mem small_screen)(17 := 9)\<rparr> \<and>
   (fb_width small_screen \<noteq> 0 \<and> fb_height small_screen \<noteq> 0) \<and>
   fb_mem (fb_draw_pixel small_screen 3 2 9) 19 = 9"
  using fb_draw_pixel_clips [of small_screen 4 0 9] fb_draw_pixel_clips [of small_screen 1 2 9]
  by (simp add: small_screen_def)

text \<open>
  C10. For all arguments (zero extents and wrapping coordinate sums included),
  \<^verbatim>\<open>fb_draw_rect\<close> and \<^verbatim>\<open>fb_draw_filled_rect\<close> leave the handle as it is and change
  only cells \<open>y * (pitch / 4) + x\<close> with \<open>x < width\<close> and \<open>y < height\<close>.
\<close>

theorem draw_rects_clipped:
  "(\<forall>k. fb_mem (fb_draw_rect fb x y w h color) k \<noteq> fb_mem fb k \<longrightarrow>
      (\<exists>px py. px < fb_width fb \<and> py < fb_height fb \<and> k = py * (fb_pitch fb div 4) + px)) \<and>
   (\<forall>k. fb_mem (fb_draw_filled_rect fb x y w h color) k \<noteq> fb_mem fb k \<longrightarrow>
      (\<exists>px py. px < fb_width fb \<and> py < fb_height fb \<and> k = py * (fb_pitch fb div 4) + px)) \<and>
   fb_draw_rect fb x y w h color = fb\<lparr>fb_mem := fb_mem (fb_draw_rect fb x y w h color)\<rparr> \<and>
   fb_draw_filled_rect fb x y w h color =
     fb\<lparr>fb_mem := fb_mem (fb_draw_filled_rect fb x y w h color)\<rparr>"
proof -
  have "t = fb\<lparr>fb_mem := fb_mem t\<rparr> \<and>
    (\<forall>k. fb_mem t k \<noteq> fb_mem fb k \<longrightarrow>
      (\<exists>px py. px < fb_width fb \<and> py < fb_height fb \<and> k = py * (fb_pitch fb div 4) + px))"
    if "clipped fb t" for t
    using that unfolding clipped_def visible_def by simp
  from this [OF clipped_rect] this [OF clipped_filled_rect] show ?thesis
    by blast
qed

theorem draw_rects_clipped_witness:
  "fb_mem (fb_draw_rect small_screen 0xFFFFFFFF 2 3 1 9) 16 \<noteq> fb_mem small_screen 16 \<and>
   (\<exists>px py. px < fb_width small_screen \<and> py < fb_height small_screen \<and>
      16 = py * (fb_pitch small_screen div 4) + px) \<and>
   fb_mem (fb_draw_filled_rect small_screen 3 2 5 5 9) 19 \<noteq> fb_mem small_screen 19 \<and>
   (\<exists>px py. px < fb_width small_screen \<and> py < fb_height small_screen \<and>
      19 = py * (fb_pitch small_screen div 4) + px)"
proof -
  have a: "fb_mem (fb_draw_rect small_screen 0xFFFFFFFF 2 3 1 9) 16 \<noteq> fb_mem small_screen 16"
    by (simp add: fb_draw_rect_def fb_draw_pixel_def for_loop.simps small_screen_def)
  have b: "fb_mem (fb_draw_filled_rect small_screen 3 2 5 5 9) 19 \<noteq> fb_mem small_screen 19"
    by (simp add: fb_draw_filled_rect_def fb_draw_pixel_def for_loop.simps small_screen_def)
  from a b draw_rects_clipped [of small_screen "0xFFFFFFFF" 2 3 1 9]
    draw_rects_clipped [of small_screen 3 2 5 5 9]
  show ?thesis
    by blast
qed

section \<open>Claims about the dashboard model\<close>

text \<open>
  C3, as stated, fails: \<^verbatim>\<open>dashboard_add_element\<close> returns \<^verbatim>\<open>void\<close>, and on a full
  dashboard the call hands back exactly the dashboard it was given. The 33rd element is
  dropped without any signal.
\<close>

theorem add_element_full_is_silent:
  "dashboard_add_element full_dashboard gauge1 = full_dashboard"
  by (simp add: dashboard_add_element_def full_dashboard_def)

text \<open>
  C3, amended. On a dashboard within its invariant: below 32 elements the element is
  stored at index \<open>element_count\<close>, the count grows by one, every other entry and the name
  are kept, and the invariant is kept; with 32 elements the call changes nothing at all
  (no stored element, not the count) and returns nothing.
\<close>

theorem add_element_capacity:
  assumes "dashboard_inv d"
  shows "(element_count d < 32 \<longrightarrow>
            element_count (dashboard_add_element d e) = element_count d + 1 \<and>
            elements (dashboard_add_element d e) ! unat (element_count d) = e \<and>
            (\<forall>i. i \<noteq> unat (element_count d) \<longrightarrow>
               elements (dashboard_add_element d e) ! i = elements d ! i) \<and>
            dash_name (dashboard_add_element d e) = dash_name d \<and>
            dashboard_inv (dashboard_add_element d e)) \<and>
         (element_count d = 32 \<longrightarrow> dashboard_add_element d e = d)"
proof -
  have "unat (element_count d) < 32" "element_count d + 1 \<le> 32" if "element_count d < 32"
    using that by (simp_all add: word_less_nat_alt word_le_nat_alt unat_word_ariths)
  then show ?thesis
    using assms by (auto simp: dashboard_add_element_def dashboard_inv_def)
qed

theorem add_element_capacity_witness:
  "dashboard_inv two_elements \<and> element_count two_elements < 32 \<and>
   element_count (dashboard_add_element two_elements gauge1) = 3 \<and>
   elements (dashboard_add_element two_elements gauge1) ! 2 = gauge1 \<and>
   elements (dashboard_add_element two_elements gauge1) ! 1 = label1 \<and>
   dashboard_inv full_dashboard \<and> element_count full_dashboard = 32 \<and>
   dashboard_add_element full_dashboard gauge1 = full_dashboard"
proof -
  have inv: "dashboard_inv two_elements" "dashboard_inv full_dashboard"
    by (simp_all add: dashboard_inv_def two_elements_def full_dashboard_def)
  have cnt: "element_count two_elements < 32" "element_count full_dashboard = 32"
    "unat (element_count two_elements) = 2"
    by (simp_all add: two_elements_def full_dashboard_def)
  have old: "elements two_elements ! 1 = label1"
    by (simp add: two_elements_def)
  from add_element_capacity [OF inv(1), of gauge1] add_element_capacity [OF inv(2), of gauge1]
    inv cnt old
  show ?thesis
    by (simp add: two_elements_def)
qed

lemma update_value_render:
  assumes "dashboard_inv d" and "i < element_count d"
  shows "dashboard_render (dashboard_update_value d i v) fb =
     for_loop 0 (element_count d)
       (\<lambda>j s. Option.bind s (render_element
          (if j = i then (elements d ! unat i)\<lparr>elem_value := v\<rparr> else elements d ! unat j)))
       (Some (fb_clear fb COLOR_BLACK))"
proof -
  have "unat i < length (elements d)"
    using assms by (simp add: dashboard_inv_def word_less_nat_alt word_le_nat_alt)
  then have "(elements d)[unat i := e] ! unat j = (if j = i then e else elements d ! unat j)" for e j
    by (auto simp: nth_list_update word_unat_eq_iff)
  then show ?thesis
    using assms(2) by (simp add: dashboard_render_def dashboard_update_value_def)
qed

text \<open>
  C4, as stated, fails: \<^verbatim>\<open>dashboard_update_value\<close> returns \<^verbatim>\<open>void\<close>, and with an index
  equal to the element count the call hands back exactly the dashboard it was given,
  without any signal.
\<close>

theorem update_value_out_of_range_is_silent:
  "dashboard_update_value two_elements 2 (Finite 10) = two_elements"
  by (simp add: dashboard_update_value_def two_elements_def)

text \<open>
  C4, amended. On a dashboard within its invariant: an index below the element count
  replaces the value of exactly that element (its other fields, every other element,
  the count and the name are kept), and the next rendering draws that element with the
  new value and every other element as before; an index at or above the element count
  changes nothing at all and returns nothing.
\<close>

theorem update_value_bounds:
  assumes "dashboard_inv d"
  shows "(i < element_count d \<longrightarrow>
            elements (dashboard_update_value d i v) ! unat i
              = (elements d ! unat i)\<lparr>elem_value := v\<rparr> \<and>
            (\<forall>j. j \<noteq> unat i \<longrightarrow>
               elements (dashboard_update_value d i v) ! j = elements d ! j) \<and>
            element_count (dashboard_update_value d i v) = element_count d \<and>
            dash_name (dashboard_update_value d i v) = dash_name d \<and>
            dashboard_inv (dashboard_update_value d i v) \<and>
            dashboard_render (dashboard_update_value d i v) fb =
              for_loop 0 (element_count d)
                (\<lambda>j s. Option.bind s (render_element
                   (if j = i then (elements d ! unat i)\<lparr>elem_value := v\<rparr>
                    else elements d ! unat j)))
                (Some (fb_clear fb COLOR_BLACK))) \<and>
         (element_count d \<le> i \<longrightarrow> dashboard_update_value d i v = d)"
proof -
  have "unat i < 32" if "i < element_count d"
    using that assms by (simp add: dashboard_inv_def word_less_nat_alt word_le_nat_alt)
  then have "(i < element_count d \<longrightarrow>
            elements (dashboard_update_value d i v) ! unat i
              = (elements d ! unat i)\<lparr>elem_value := v\<rparr> \<and>
            (\<forall>j. j \<noteq> unat i \<longrightarrow>
               elements (dashboard_update_value d i v) ! j = elements d ! j) \<and>
            element_count (dashboard_update_value d i v) = element_count d \<and>
            dash_name (dashboard_update_value d i v) = dash_name d \<and>
            dashboard_inv (dashboard_update_value d i v)) \<and>
         (element_count d \<le> i \<longrightarrow> dashboard_update_value d i v = d)"
    using assms by (auto simp: dashboard_update_value_def dashboard_inv_def)
  then show ?thesis
    using update_value_render [OF assms, of i v fb] by blast
qed

theorem update_value_bounds_witness:
  "dashboard_inv two_elements \<and> 1 < element_count two_elements \<and>
   elements (dashboard_update_value two_elements 1 (Finite 10)) ! 1
     = label1\<lparr>elem_value := Finite 10\<rparr> \<and>
   elements (dashboard_update_value two_elements 1 (Finite 10)) ! 0 = gauge1 \<and>
   element_count two_elements \<le> 2 \<and>
   dashboard_update_value two_elements 2 (Finite 10) = two_elements"
proof -
  have inv: "dashboard_inv two_elements"
    by (simp add: dashboard_inv_def two_elements_def)
  have cnt: "1 < element_count two_elements" "element_count two_elements \<le> 2"
    by (simp_all add: two_elements_def)
  have old: "elements two_elements ! 1 = label1" "elements two_elements ! 0 = gauge1"
    by (simp_all add: two_elements_def)
  from update_value_bounds [OF inv, of 1 "Finite 10" small_screen]
    update_value_bounds [OF inv, of 2 "Finite 10" small_screen] inv cnt old
  show ?thesis
    by simp
qed

section \<open>Claims about the fill fraction\<close>

text \<open>
  C7, as stated, fails: with \<open>min = -2\<^sup>1\<^sup>2\<^sup>7\<close> and \<open>max = 2\<^sup>1\<^sup>2\<^sup>7\<close> the range
  \<open>max - min\<close> overflows to infinity, and at \<open>value = max\<close> the fraction is
  \<open>\<infinity> / \<infinity>\<close>, a NaN that both clamping comparisons let through.
\<close>

theorem fill_fraction_overflow:
  "f32_lt (Finite (- (2 ^ 127))) (Finite (2 ^ 127)) \<and>
   gauge_percentage (gauge1\<lparr>elem_value := Finite (2 ^ 127),
      elem_min_value := Finite (- (2 ^ 127)), elem_max_value := Finite (2 ^ 127)\<rparr>) = NaN"
proof -
  have "round_mag (2 ^ 128) = 2 ^ 128"
    using round_mag_cert [of 104 "2 ^ 128" "2 ^ 24"] by simp
  then have "f32_round (2 ^ 128) = PosInf"
    by (simp add: f32_round_def)
  then have "f32_sub (Finite (2 ^ 127)) (Finite (- (2 ^ 127))) = PosInf"
    by (simp add: f32_sub_def f32_add_def)
  then show ?thesis
    by (simp add: gauge_percentage_def gauge1_def f32_div_def f32_lt_def f32_gt_def)
qed

text \<open>
  C7, amended. For every element whose \<open>min\<close> and \<open>max\<close> are single-precision values
  with \<open>min < max\<close> and a finite range \<open>max - min\<close> (no overflow), whatever their signs:
  the clamped fill fraction is monotonic non-decreasing in \<open>value\<close> (over all values
  that are not NaN), is exactly 0 at \<open>value = min\<close> and exactly 1 at \<open>value = max\<close>.
\<close>

theorem fill_fraction_monotone:
  assumes "representable (elem_min_value e)" and "representable (elem_max_value e)"
    and "f32_lt (elem_min_value e) (elem_max_value e)"
    and "is_finite (f32_sub (elem_max_value e) (elem_min_value e))"
  shows "(\<forall>v1 v2. f32_le v1 v2 \<longrightarrow>
            f32_le (gauge_percentage (e\<lparr>elem_value := v1\<rparr>))
                   (gauge_percentage (e\<lparr>elem_value := v2\<rparr>))) \<and>
         gauge_percentage (e\<lparr>elem_value := elem_min_value e\<rparr>) = Finite 0 \<and>
         gauge_percentage (e\<lparr>elem_value := elem_max_value e\<rparr>) = Finite 1"
proof -
  let ?mn = "elem_min_value e" and ?mx = "elem_max_value e"
  have fin: "is_finite ?mx" "is_finite ?mn"
    using is_finite_sub [OF assms(4)] by simp_all
  obtain d where d: "f32_sub ?mx ?mn = Finite d" and dpos: "0 < d"
    using f32_sub_pos [OF assms(2,1) fin] assms(3,4) by auto
  have mono: "f32_le (gauge_percentage (e\<lparr>elem_value := v1\<rparr>))
      (gauge_percentage (e\<lparr>elem_value := v2\<rparr>))" if "f32_le v1 v2" for v1 v2
  proof -
    have "f32_le (f32_div (f32_sub v1 ?mn) (Finite d)) (f32_div (f32_sub v2 ?mn) (Finite d))"
      by (intro f32_div_mono dpos f32_sub_mono fin that)
    from clamp_mono [OF this] show ?thesis
      by (simp add: gauge_percentage_def d Let_def)
  qed
  have "f32_div (Finite 0) (Finite d) = Finite 0"
    using dpos by (simp add: f32_div_def signed_zero_def)
  then have zero: "gauge_percentage (e\<lparr>elem_value := ?mn\<rparr>) = Finite 0"
    by (simp add: gauge_percentage_def d f32_sub_self fin f32_lt_def f32_gt_def)
  have "f32_div (Finite d) (Finite d) = Finite 1"
    using dpos f32_round_int [of 1] by (simp add: f32_div_def)
  then have one: "gauge_percentage (e\<lparr>elem_value := ?mx\<rparr>) = Finite 1"
    by (simp add: gauge_percentage_def d f32_lt_def f32_gt_def)
  from mono zero one show ?thesis
    by simp
qed

theorem fill_fraction_monotone_witness:
  "representable (elem_min_value boost_gauge) \<and> representable (elem_max_value boost_gauge) \<and>
   f32_lt (elem_min_value boost_gauge) (elem_max_value boost_gauge) \<and>
   is_finite (f32_sub (elem_max_value boost_gauge) (elem_min_value boost_gauge)) \<and>
   f32_le (Finite 0) (Finite 10) \<and>
   f32_le (gauge_percentage (boost_gauge\<lparr>elem_value := Finite 0\<rparr>))
          (gauge_percentage (boost_gauge\<lparr>elem_value := Finite 10\<rparr>)) \<and>
   gauge_percentage (boost_gauge\<lparr>elem_value := Finite (- 15)\<rparr>) = Finite 0 \<and>
   gauge_percentage (boost_gauge\<lparr>elem_value := Finite 30\<rparr>) = Finite 1"
proof -
  have r: "representable (elem_min_value boost_gauge)" "representable (elem_max_value boost_gauge)"
    using f32_round_neg_int [of 15] f32_round_int [of 30]
    by (simp_all add: boost_gauge_def representable_def)
  have lt: "f32_lt (elem_min_value boost_gauge) (elem_max_value boost_gauge)"
    by (simp add: boost_gauge_def f32_lt_def)
  have fin: "is_finite (f32_sub (elem_max_value boost_gauge) (elem_min_value boost_gauge))"
    using f32_round_int [of 45] by (simp add: boost_gauge_def f32_sub_def f32_add_def)
  have le: "f32_le (Finite 0) (Finite 10)"
    by (simp add: f32_le_def)
  from fill_fraction_monotone [OF r lt fin] r lt fin le show ?thesis
    by (simp add: boost_gauge_def)
qed

section \<open>Claims about the gauge and the value display\<close>

lemma gauge_percentage_range:
  "gauge_percentage elem = NaN \<or>
   f32_le (Finite 0) (gauge_percentage elem) \<and> f32_le (gauge_percentage elem) (Finite 1)"
proof -
  define p where "p = f32_div (f32_sub (elem_value elem) (elem_min_value elem))
    (f32_sub (elem_max_value elem) (elem_min_value elem))"
  have "gauge_percentage elem =
    (let q = (if f32_lt p (Finite 0) then Finite 0 else p) in if f32_gt q (Finite 1) then Finite 1 else q)"
    by (simp add: gauge_percentage_def p_def Let_def)
  then show ?thesis
    by (cases p) (auto simp: Let_def f32_lt_def f32_gt_def f32_le_def)
qed

lemma f32_div_not_NaN:
  assumes "a \<noteq> NaN" and "d \<noteq> 0"
  shows "f32_div a (Finite d) \<noteq> NaN"
  using assms by (simp add: f32_div_def signed_inf_def signed_zero_def f32_round_not_NaN)

lemma f32_sub_not_NaN:
  assumes "a \<noteq> NaN" and "is_finite b"
  shows "f32_sub a b \<noteq> NaN"
  using assms
  by (cases b) (auto simp: f32_sub_def f32_add_def signed_zero_def f32_round_not_NaN)

lemma round_mag_below_2_32:
  assumes "m \<le> 2 ^ 32 - 129"
  shows "round_mag m < 2 ^ 32"
proof -
  have "round_mag (2 ^ 32 - 129) = 2 ^ 32 - 256"
    using round_mag_cert [of 8 "2 ^ 32 - 129" "2 ^ 24 - 1"] by simp
  with round_mag_mono [OF assms] show ?thesis by simp
qed

lemma f32_mul_fraction:
  assumes "f32_le (Finite 0) p" and "f32_le p (Finite 1)"
    and "representable (Finite r)" and "0 \<le> r" and "r < 2 ^ 32"
  shows "\<exists>n. f32_to_u32 (f32_mul p (Finite r)) = Some n"
proof -
  have p: "p \<noteq> NaN" "\<not> is_inf p" "0 \<le> f32_val p" "f32_val p \<le> 1"
    using assms(1,2) by (cases p; simp add: f32_le_def)+
  show ?thesis
  proof (cases "f32_val p * r = 0")
    case True
    then show ?thesis
      using p by (auto simp: f32_mul_def signed_zero_def f32_to_u32_def)
  next
    case False
    have le: "f32_val p * r \<le> r"
      using mult_right_mono [OF p(4) assms(4)] by simp
    have nn: "0 \<le> f32_val p * r"
      using p(3) assms(4) by simp
    have rr: "round_mag r = r"
      using assms(3,4,5) by (auto simp: representable_def f32_round_def Let_def split: if_splits)
    have "round_mag (f32_val p * r) \<le> r"
      using round_mag_mono [OF le] rr by simp
    moreover have "0 \<le> round_mag (f32_val p * r)"
      by (rule round_mag_nonneg [OF nn])
    ultimately have "f32_round (f32_val p * r) = Finite (round_mag (f32_val p * r))"
      "round_mag (f32_val p * r) < 2 ^ 32"
      using nn assms(5) by (simp_all add: f32_round_def)
    then show ?thesis
      using False p \<open>0 \<le> round_mag (f32_val p * r)\<close>
      by (simp add: f32_mul_def f32_to_u32_def)
  qed
qed

lemma gauge_fill_width_defined:
  assumes "representable (elem_min_value elem)" and "representable (elem_max_value elem)"
    and "elem_value elem \<noteq> NaN"
    and "\<not> f32_eq (elem_max_value elem) (elem_min_value elem)"
    and "is_finite (f32_sub (elem_max_value elem) (elem_min_value elem))"
    and "unat (elem_width elem - 4) \<le> 2 ^ 32 - 129"
  shows "\<exists>n. gauge_fill_width elem = Some n"
proof -
  let ?mn = "elem_min_value elem" and ?mx = "elem_max_value elem"
  have fin: "is_finite ?mx" "is_finite ?mn"
    using is_finite_sub [OF assms(5)] by simp_all
  have "f32_lt ?mn ?mx \<or> f32_lt ?mx ?mn"
    using fin assms(4) by (cases ?mn; cases ?mx; auto simp: f32_eq_def f32_lt_def)
  then obtain d where d: "f32_sub ?mx ?mn = Finite d" and d0: "d \<noteq> 0"
    using f32_sub_pos [OF assms(2,1) fin] f32_sub_neg [OF assms(2,1) fin] assms(5) by auto
  have "f32_div (f32_sub (elem_value elem) ?mn) (Finite d) \<noteq> NaN"
    by (intro f32_div_not_NaN f32_sub_not_NaN assms(3) fin d0)
  then have "gauge_percentage elem \<noteq> NaN"
    by (auto simp: gauge_percentage_def d Let_def)
  then have range: "f32_le (Finite 0) (gauge_percentage elem)" "f32_le (gauge_percentage elem) (Finite 1)"
    using gauge_percentage_range [of elem] by simp_all
  define q where "q = rat_of_nat (unat (elem_width elem - 4))"
  have w: "u32_to_f32 (elem_width elem - 4) = f32_round q"
    by (simp only: u32_to_f32_def q_def)
  have "q \<le> rat_of_nat (2 ^ 32 - 129)"
    unfolding q_def using assms(6) by (simp only: of_nat_le_iff)
  then have q: "q \<le> 2 ^ 32 - 129" by simp
  have q0: "0 \<le> q"
    unfolding q_def by (simp only: of_nat_0_le_iff)
  have lt: "round_mag q < 2 ^ 32"
    by (rule round_mag_below_2_32 [OF q])
  have nn: "0 \<le> round_mag q"
    by (rule round_mag_nonneg [OF q0])
  have fr: "f32_round q = Finite (round_mag q)"
    using q0 lt by (simp add: f32_round_def)
  have "representable (Finite (round_mag q))"
    using representable_round [of q] by (simp only: fr)
  from f32_mul_fraction [OF range this nn lt] show ?thesis
    by (simp add: gauge_fill_width_def w fr)
qed

lemma gauge1_fill_width: "gauge_fill_width gauge1 = Some 297"
proof -
  have "f32_sub (Finite 75) (Finite 0) = Finite 75" "f32_sub (Finite 100) (Finite 0) = Finite 100"
    using f32_round_int [of 75] f32_round_int [of 100] by (simp_all add: f32_sub_def f32_add_def)
  moreover have "f32_div (Finite 75) (Finite 100) = Finite (3 / 4)"
    using f32_0_75 by (simp add: f32_div_def)
  ultimately have p: "gauge_percentage gauge1 = Finite (3 / 4)"
    by (simp add: gauge_percentage_def gauge1_def f32_lt_def f32_gt_def)
  have w: "elem_width gauge1 - 4 = 396"
    by (simp add: gauge1_def)
  have "u32_to_f32 396 = Finite 396"
    using f32_round_int [of 396] by (simp add: u32_to_f32_def)
  moreover have "f32_mul (Finite (3 / 4)) (Finite 396) = Finite 297"
    using f32_round_int [of 297] by (simp add: f32_mul_def)
  ultimately show ?thesis
    by (simp add: gauge_fill_width_def p w f32_to_u32_def)
qed


lemma gauge_percentage_clamp:
  "(f32_lt (value_percentage elem) (Finite 0) \<longrightarrow> gauge_percentage elem = Finite 0) \<and>
   (f32_gt (value_percentage elem) (Finite 1) \<longrightarrow> gauge_percentage elem = Finite 1) \<and>
   (\<not> f32_lt (value_percentage elem) (Finite 0) \<and> \<not> f32_gt (value_percentage elem) (Finite 1) \<longrightarrow>
      gauge_percentage elem = value_percentage elem)"
  by (cases "value_percentage elem")
     (auto simp: gauge_percentage_def value_percentage_def Let_def f32_lt_def f32_gt_def)

lemma f32_0_21: "f32_round (21 / 100) = Finite (14092861 / 67108864)"
  using f32_round_cert [of "21 / 100" "- 26" 14092861] by simp

lemma f32_0_21_times_300:
  "f32_round (1056964575 / 16777216) = Finite (16515071 / 262144)"
  using f32_round_cert [of "1056964575 / 16777216" "- 18" 16515071] by simp

lemma floor_62: "\<lfloor>16515071 / 262144 :: rat\<rfloor> = 62"
  by (rule floor_unique) simp_all

lemma narrow_gauge_fill_width: "gauge_fill_width narrow_gauge = Some 62"
proof -
  have "f32_sub (Finite 21) (Finite 0) = Finite 21" "f32_sub (Finite 100) (Finite 0) = Finite 100"
    using f32_round_int [of 21] f32_round_int [of 100] by (simp_all add: f32_sub_def f32_add_def)
  moreover have "f32_div (Finite 21) (Finite 100) = Finite (14092861 / 67108864)"
    using f32_0_21 by (simp add: f32_div_def)
  ultimately have p: "gauge_percentage narrow_gauge = Finite (14092861 / 67108864)"
    by (simp add: gauge_percentage_def narrow_gauge_def gauge1_def f32_lt_def f32_gt_def)
  have w: "elem_width narrow_gauge - 4 = 300"
    by (simp add: narrow_gauge_def gauge1_def)
  have "u32_to_f32 300 = Finite 300"
    using f32_round_int [of 300] by (simp add: u32_to_f32_def)
  moreover have "f32_mul (Finite (14092861 / 67108864)) (Finite 300) = Finite (16515071 / 262144)"
    using f32_0_21_times_300 by (simp add: f32_mul_def)
  ultimately show ?thesis
    by (simp add: gauge_fill_width_def p w f32_to_u32_def floor_62)
qed

lemma narrow_gauge_spec: "spec_fill_width narrow_gauge = 63"
  by (simp add: spec_fill_width_def clamp_def narrow_gauge_def gauge1_def)

lemma f32_neg_finite: "is_finite b \<Longrightarrow> is_finite (f32_neg b) \<and> f32_val (f32_neg b) = - f32_val b"
  by (cases b) simp_all

lemma representable_FiniteD: "representable (Finite q) \<Longrightarrow> f32_round q = Finite q"
  by (simp add: representable_def)

lemma f32_sub_exact:
  assumes "is_finite a" and "is_finite b" and "representable (Finite (f32_val a - f32_val b))"
  shows "is_finite (f32_sub a b) \<and> f32_val (f32_sub a b) = f32_val a - f32_val b"
  using assms representable_FiniteD [OF assms(3)]
  by (cases a; cases b) (auto simp: f32_sub_def f32_add_def signed_zero_def)

lemma f32_div_exact:
  assumes "is_finite a" and "is_finite b" and "f32_val b \<noteq> 0"
    and "representable (Finite (f32_val a / f32_val b))"
  shows "is_finite (f32_div a b) \<and> f32_val (f32_div a b) = f32_val a / f32_val b"
  using assms representable_FiniteD [OF assms(4)]
  by (cases a; cases b) (auto simp: f32_div_def signed_zero_def)

lemma f32_mul_exact:
  assumes "is_finite a" and "is_finite b" and "representable (Finite (f32_val a * f32_val b))"
  shows "is_finite (f32_mul a b) \<and> f32_val (f32_mul a b) = f32_val a * f32_val b"
  using assms representable_FiniteD [OF assms(3)]
  by (cases a; cases b) (auto simp: f32_mul_def signed_zero_def)

lemma f32_to_u32_floor:
  assumes "is_finite a" and "0 \<le> f32_val a" and "f32_val a < 2 ^ 32"
  shows "\<exists>n. f32_to_u32 a = Some n \<and> int (unat n) = \<lfloor>f32_val a\<rfloor>"
proof -
  have "\<lfloor>f32_val a\<rfloor> < 2 ^ 32"
    using assms(3) by (simp add: floor_less_iff)
  moreover have "0 \<le> \<lfloor>f32_val a\<rfloor>"
    using assms(2) by simp
  ultimately have "int (unat (word_of_int \<lfloor>f32_val a\<rfloor> :: u32)) = \<lfloor>f32_val a\<rfloor>"
    by (simp add: unsigned_of_int take_bit_int_eq_self)
  then show ?thesis
    using assms by (cases a) (auto simp: f32_to_u32_def)
qed

lemma gauge_percentage_exact:
  assumes "is_finite (value_percentage elem)"
  shows "is_finite (gauge_percentage elem) \<and>
         f32_val (gauge_percentage elem) = clamp (f32_val (value_percentage elem)) 0 1"
  using assms
  by (cases "value_percentage elem")
     (auto simp: gauge_percentage_def value_percentage_def Let_def f32_lt_def f32_gt_def clamp_def)

lemma gauge_fill_width_exact:
  assumes "unrounded elem" and "\<not> f32_eq (elem_max_value elem) (elem_min_value elem)"
    and "4 \<le> elem_width elem"
  shows "\<exists>n. gauge_fill_width elem = Some n \<and> int (unat n) = \<lfloor>spec_fill_width elem\<rfloor>"
proof -
  let ?v = "elem_value elem" and ?mn = "elem_min_value elem" and ?mx = "elem_max_value elem"
  define w where "w = rat_of_nat (unat (elem_width elem - 4))"
  define q where "q = (f32_val ?v - f32_val ?mn) / (f32_val ?mx - f32_val ?mn)"
  have u: "is_finite ?v" "is_finite ?mn" "is_finite ?mx"
    "representable (Finite (f32_val ?v - f32_val ?mn))"
    "representable (Finite (f32_val ?mx - f32_val ?mn))"
    "representable (Finite q)" "representable (Finite w)"
    "representable (Finite (clamp q 0 1 * w))"
    using assms(1) by (simp_all add: unrounded_def Let_def w_def q_def)
  have d0: "f32_val ?mx - f32_val ?mn \<noteq> 0"
    using assms(2) u(2,3) by (cases ?mx; cases ?mn; simp add: f32_eq_def)
  note num = f32_sub_exact [OF u(1,2,4)] and den = f32_sub_exact [OF u(3,2,5)]
  have "representable (Finite (f32_val (f32_sub ?v ?mn) / f32_val (f32_sub ?mx ?mn)))"
    using u(6) num den by (simp add: q_def)
  with num den d0 have quo: "is_finite (value_percentage elem)"
    "f32_val (value_percentage elem) = q"
    using f32_div_exact [of "f32_sub ?v ?mn" "f32_sub ?mx ?mn"]
    by (simp_all add: q_def value_percentage_def)
  have p: "is_finite (gauge_percentage elem)" "f32_val (gauge_percentage elem) = clamp q 0 1"
    using gauge_percentage_exact [OF quo(1)] quo(2) by simp_all
  have fw: "u32_to_f32 (elem_width elem - 4) = Finite w"
    using representable_FiniteD [OF u(7)] by (simp only: u32_to_f32_def w_def)
  have "representable (Finite (f32_val (gauge_percentage elem) * f32_val (Finite w)))"
    using u(8) p(2) by simp
  with p(1) have m: "is_finite (f32_mul (gauge_percentage elem) (Finite w))"
    "f32_val (f32_mul (gauge_percentage elem) (Finite w)) = clamp q 0 1 * w"
    using f32_mul_exact [of "gauge_percentage elem" "Finite w"] p(2) by simp_all
  have w0: "0 \<le> w"
    unfolding w_def by (simp only: of_nat_0_le_iff)
  have "unat (elem_width elem - 4) < 2 ^ 32"
    using unsigned_less [of "elem_width elem - 4"] by simp
  then have "w < rat_of_nat (2 ^ 32)"
    unfolding w_def by (simp only: of_nat_less_iff)
  then have w32: "w < 2 ^ 32" by simp
  have c: "0 \<le> clamp q 0 1" "clamp q 0 1 \<le> 1"
    by (simp_all add: clamp_def)
  have "clamp q 0 1 * w \<le> 1 * w"
    by (rule mult_right_mono [OF c(2) w0])
  then have lt: "clamp q 0 1 * w < 2 ^ 32"
    using w32 by simp
  have nn: "0 \<le> clamp q 0 1 * w"
    using c(1) w0 by simp
  have "unat (elem_width elem - 4) = unat (elem_width elem) - 4" "4 \<le> unat (elem_width elem)"
    using assms(3) by (simp_all add: unat_sub word_le_nat_alt)
  then have "w = rat_of_nat (unat (elem_width elem)) - 4"
    unfolding w_def by (simp add: of_nat_diff)
  then have s: "spec_fill_width elem = clamp q 0 1 * w"
    by (simp add: spec_fill_width_def q_def)
  from f32_to_u32_floor [OF m(1)] nn lt show ?thesis
    by (simp add: gauge_fill_width_def fw m(2) s)
qed

lemma f32_mul_fraction_le:
  assumes "f32_le (Finite 0) p" and "f32_le p (Finite 1)"
    and "representable (Finite r)" and "0 \<le> r" and "r < 2 ^ 32"
    and "f32_to_u32 (f32_mul p (Finite r)) = Some n"
  shows "rat_of_nat (unat n) \<le> r"
proof -
  have p: "p \<noteq> NaN" "\<not> is_inf p" "0 \<le> f32_val p" "f32_val p \<le> 1"
    using assms(1,2) by (cases p; simp add: f32_le_def)+
  show ?thesis
  proof (cases "f32_val p * r = 0")
    case True
    then have "n = 0"
      using p assms(6) by (auto simp: f32_mul_def signed_zero_def f32_to_u32_def split: if_splits)
    then show ?thesis
      using assms(4) by simp
  next
    case False
    define m where "m = round_mag (f32_val p * r)"
    have le: "f32_val p * r \<le> r"
      using mult_right_mono [OF p(4) assms(4)] by simp
    have nn: "0 \<le> f32_val p * r"
      using p(3) assms(4) by simp
    have rr: "round_mag r = r"
      using assms(3,4,5) by (auto simp: representable_def f32_round_def Let_def split: if_splits)
    have mr: "m \<le> r"
      unfolding m_def using round_mag_mono [OF le] rr by simp
    have m0: "0 \<le> m"
      unfolding m_def by (rule round_mag_nonneg [OF nn])
    have "f32_round (f32_val p * r) = Finite m"
      using nn assms(5) mr m0 by (simp add: f32_round_def m_def)
    then have fm: "f32_mul p (Finite r) = Finite m"
      using False p by (simp add: f32_mul_def)
    have "is_finite (Finite m)" "0 \<le> f32_val (Finite m)" "f32_val (Finite m) < 2 ^ 32"
      using m0 mr assms(5) by simp_all
    from f32_to_u32_floor [OF this] assms(6) have "int (unat n) = \<lfloor>m\<rfloor>"
      by (simp add: fm)
    then have "rat_of_nat (unat n) = of_int \<lfloor>m\<rfloor>"
      by (metis of_int_of_nat_eq)
    also have "\<dots> \<le> m" by simp
    finally show ?thesis
      using mr by simp
  qed
qed

lemma gauge_fill_width_bounded:
  assumes "representable (elem_min_value elem)" and "representable (elem_max_value elem)"
    and "elem_value elem \<noteq> NaN"
    and "\<not> f32_eq (elem_max_value elem) (elem_min_value elem)"
    and "is_finite (f32_sub (elem_max_value elem) (elem_min_value elem))"
    and "unat (elem_width elem - 4) < 2 ^ 24"
    and "gauge_fill_width elem = Some n"
  shows "n \<le> elem_width elem - 4"
proof -
  let ?mn = "elem_min_value elem" and ?mx = "elem_max_value elem"
  have fin: "is_finite ?mx" "is_finite ?mn"
    using is_finite_sub [OF assms(5)] by simp_all
  have "f32_lt ?mn ?mx \<or> f32_lt ?mx ?mn"
    using fin assms(4) by (cases ?mn; cases ?mx; auto simp: f32_eq_def f32_lt_def)
  then obtain d where d: "f32_sub ?mx ?mn = Finite d" and d0: "d \<noteq> 0"
    using f32_sub_pos [OF assms(2,1) fin] f32_sub_neg [OF assms(2,1) fin] assms(5) by auto
  have "f32_div (f32_sub (elem_value elem) ?mn) (Finite d) \<noteq> NaN"
    by (intro f32_div_not_NaN f32_sub_not_NaN assms(3) fin d0)
  then have "gauge_percentage elem \<noteq> NaN"
    by (auto simp: gauge_percentage_def d Let_def)
  then have range: "f32_le (Finite 0) (gauge_percentage elem)" "f32_le (gauge_percentage elem) (Finite 1)"
    using gauge_percentage_range [of elem] by simp_all
  define k where "k = unat (elem_width elem - 4)"
  have "k < 2 ^ 24"
    using assms(6) by (simp only: k_def)
  then have k: "int k < 2 ^ 24" "0 \<le> int k"
    by simp_all
  have "f32_round (of_int (int k)) = Finite (of_int (int k))"
    by (rule f32_round_int [OF k(2,1)])
  then have fr: "f32_round (rat_of_nat k) = Finite (rat_of_nat k)"
    by simp
  have w: "u32_to_f32 (elem_width elem - 4) = Finite (rat_of_nat k)"
    using fr by (simp only: u32_to_f32_def k_def)
  have r: "representable (Finite (rat_of_nat k))"
    using fr by (simp add: representable_def)
  have "rat_of_nat k < rat_of_nat (2 ^ 24)"
    using assms(6) unfolding k_def by (simp only: of_nat_less_iff)
  then have lt: "rat_of_nat k < 2 ^ 32"
    by simp
  have "f32_to_u32 (f32_mul (gauge_percentage elem) (Finite (rat_of_nat k))) = Some n"
    using assms(7) by (simp only: gauge_fill_width_def w)
  from f32_mul_fraction_le [OF range r _ lt this] have "rat_of_nat (unat n) \<le> rat_of_nat k"
    by simp
  then have "unat n \<le> k"
    by (simp only: of_nat_le_iff)
  then show ?thesis
    by (simp add: word_le_nat_alt k_def)
qed


lemma narrow_gauge_render:
  "render_gauge narrow_gauge fb =
     Some (fb_draw_filled_rect
             (fb_draw_rect (fb_draw_filled_rect fb 50 50 304 60 COLOR_BLACK) 50 50 304 60 COLOR_GREEN)
             52 52 62 56 COLOR_GREEN)"
proof -
  have "render_gauge narrow_gauge fb =
     Some (fb_draw_filled_rect
             (fb_draw_rect
                (fb_draw_filled_rect fb (elem_x narrow_gauge) (elem_y narrow_gauge)
                   (elem_width narrow_gauge) (elem_height narrow_gauge) COLOR_BLACK)
                (elem_x narrow_gauge) (elem_y narrow_gauge) (elem_width narrow_gauge)
                (elem_height narrow_gauge) (elem_color narrow_gauge))
             (elem_x narrow_gauge + 2) (elem_y narrow_gauge + 2) 62 (elem_height narrow_gauge - 4)
             (elem_color narrow_gauge))"
    by (simp add: render_gauge_def Let_def narrow_gauge_fill_width)
  then show ?thesis
    by (simp add: narrow_gauge_def gauge1_def)
qed

text \<open>
  C1, as stated, fails: the fill width is not the product of the clamped fraction and
  \<open>width - 4\<close>. For the gauge with value 21 in \<open>0 \<dots> 100\<close> and width 304 the product
  is \<open>21 / 100 * 300 = 63\<close>, yet the fill rectangle drawn is 62 pixels wide: the quotient
  is rounded to single precision, to a number below \<open>21 / 100\<close>, its product with 300 is
  rounded again, to a number below 63, and the conversion to \<^verbatim>\<open>uint32_t\<close> drops the
  fraction.
\<close>

theorem gauge_fill_width_below_product:
  "elem_type narrow_gauge = DASH_ELEMENT_GAUGE \<and>
   \<not> f32_eq (elem_max_value narrow_gauge) (elem_min_value narrow_gauge) \<and>
   spec_fill_width narrow_gauge = 63 \<and>
   gauge_fill_width narrow_gauge = Some 62 \<and>
   render_gauge narrow_gauge small_screen =
     Some (fb_draw_filled_rect
             (fb_draw_rect (fb_draw_filled_rect small_screen 50 50 304 60 COLOR_BLACK)
                50 50 304 60 COLOR_GREEN)
             52 52 62 56 COLOR_GREEN)"
proof -
  have "elem_type narrow_gauge = DASH_ELEMENT_GAUGE"
    "\<not> f32_eq (elem_max_value narrow_gauge) (elem_min_value narrow_gauge)"
    by (simp_all add: narrow_gauge_def gauge1_def f32_eq_def)
  then show ?thesis
    using narrow_gauge_spec narrow_gauge_fill_width narrow_gauge_render [of small_screen]
    by simp
qed

text \<open>
  C1, amended. Take a gauge with \<open>max \<noteq> min\<close> whose \<open>min\<close> and \<open>max\<close> are single-precision
  numbers with a finite difference, whose value is not NaN and whose width is at least 4
  and at most \<open>2\<^sup>3\<^sup>2 - 125\<close>. Rendering it draws the black background, then the outline
  in the element's color, then, when the fill width is not 0, the fill rectangle at
  \<open>(x + 2, y + 2)\<close> of height \<open>height - 4\<close> in the element's color. The fill width is the
  product of the clamped fraction and \<open>width - 4\<close> computed in single precision, every
  operation rounded, and converted to \<^verbatim>\<open>uint32_t\<close>, which drops the fraction; the
  clamped fraction is the single-precision quotient \<open>(value - min) / (max - min)\<close> brought
  into \<open>0 \<dots> 1\<close>. The fill is never wider than \<open>width - 4\<close> when the width is below
  \<open>2\<^sup>2\<^sup>4 + 4\<close>, and it is the integral part of the exact product where no operation
  rounds. The gauge \<open>(50, 50, 400, 60)\<close> with value 75 in \<open>0 \<dots> 100\<close> gets a fill
  rectangle exactly 297 pixels wide at \<open>(52, 52)\<close>.
\<close>

theorem render_gauge_fill:
  assumes "representable (elem_min_value elem)" and "representable (elem_max_value elem)"
    and "elem_value elem \<noteq> NaN"
    and "\<not> f32_eq (elem_max_value elem) (elem_min_value elem)"
    and "is_finite (f32_sub (elem_max_value elem) (elem_min_value elem))"
    and "4 \<le> unat (elem_width elem)" and "unat (elem_width elem) \<le> 2 ^ 32 - 125"
  shows
    "\<exists>n. f32_to_u32 (f32_mul (gauge_percentage elem) (u32_to_f32 (elem_width elem - 4))) = Some n \<and>
       gauge_percentage elem =
         (if f32_lt (value_percentage elem) (Finite 0) then Finite 0
          else if f32_gt (value_percentage elem) (Finite 1) then Finite 1
          else value_percentage elem) \<and>
       value_percentage elem =
         f32_div (f32_sub (elem_value elem) (elem_min_value elem))
           (f32_sub (elem_max_value elem) (elem_min_value elem)) \<and>
       render_gauge elem fb =
         Some (if 0 < n
               then fb_draw_filled_rect
                      (fb_draw_rect
                         (fb_draw_filled_rect fb (elem_x elem) (elem_y elem) (elem_width elem)
                            (elem_height elem) COLOR_BLACK)
                         (elem_x elem) (elem_y elem) (elem_width elem) (elem_height elem)
                         (elem_color elem))
                      (elem_x elem + 2) (elem_y elem + 2) n (elem_height elem - 4)
                      (elem_color elem)
               else fb_draw_rect
                      (fb_draw_filled_rect fb (elem_x elem) (elem_y elem) (elem_width elem)
                         (elem_height elem) COLOR_BLACK)
                      (elem_x elem) (elem_y elem) (elem_width elem) (elem_height elem)
                      (elem_color elem)) \<and>
       (unat (elem_width elem) < 2 ^ 24 + 4 \<longrightarrow> n \<le> elem_width elem - 4) \<and>
       (unrounded elem \<longrightarrow> int (unat n) = \<lfloor>spec_fill_width elem\<rfloor>) \<and>
       gauge_fill_width gauge1 = Some 297 \<and>
       render_gauge gauge1 fb =
         Some (fb_draw_filled_rect
                 (fb_draw_rect (fb_draw_filled_rect fb 50 50 400 60 COLOR_BLACK)
                    50 50 400 60 COLOR_GREEN)
                 52 52 297 56 COLOR_GREEN)"
proof -
  have sub: "unat (elem_width elem - 4) = unat (elem_width elem) - 4"
    using assms(6) by (simp add: unat_sub word_le_nat_alt)
  have w4: "4 \<le> elem_width elem"
    using assms(6) by (simp add: word_le_nat_alt)
  have "unat (elem_width elem - 4) \<le> 2 ^ 32 - 129"
    using assms(7) by (simp add: sub)
  from gauge_fill_width_defined [OF assms(1-5) this]
  obtain n where n: "gauge_fill_width elem = Some n" ..
  have a: "f32_to_u32 (f32_mul (gauge_percentage elem) (u32_to_f32 (elem_width elem - 4))) = Some n"
    using n by (simp only: gauge_fill_width_def)
  have b: "gauge_percentage elem =
         (if f32_lt (value_percentage elem) (Finite 0) then Finite 0
          else if f32_gt (value_percentage elem) (Finite 1) then Finite 1
          else value_percentage elem)"
    using gauge_percentage_clamp [of elem] by simp
  have c: "value_percentage elem =
         f32_div (f32_sub (elem_value elem) (elem_min_value elem))
           (f32_sub (elem_max_value elem) (elem_min_value elem))"
    by (simp only: value_percentage_def)
  have d: "render_gauge elem fb =
         Some (if 0 < n
               then fb_draw_filled_rect
                      (fb_draw_rect
                         (fb_draw_filled_rect fb (elem_x elem) (elem_y elem) (elem_width elem)
                            (elem_height elem) COLOR_BLACK)
                         (elem_x elem) (elem_y elem) (elem_width elem) (elem_height elem)
                         (elem_color elem))
                      (elem_x elem + 2) (elem_y elem + 2) n (elem_height elem - 4)
                      (elem_color elem)
               else fb_draw_rect
                      (fb_draw_filled_rect fb (elem_x elem) (elem_y elem) (elem_width elem)
                         (elem_height elem) COLOR_BLACK)
                      (elem_x elem) (elem_y elem) (elem_width elem) (elem_height elem)
                      (elem_color elem))"
    by (simp add: render_gauge_def Let_def n)
  have e: "n \<le> elem_width elem - 4" if "unat (elem_width elem) < 2 ^ 24 + 4"
  proof -
    have "unat (elem_width elem - 4) < 2 ^ 24"
      using that assms(6) by (simp add: sub)
    from gauge_fill_width_bounded [OF assms(1-5) this n] show ?thesis .
  qed
  have f: "int (unat n) = \<lfloor>spec_fill_width elem\<rfloor>" if "unrounded elem"
    using gauge_fill_width_exact [OF that assms(4) w4] n by simp
  have g: "render_gauge gauge1 fb =
         Some (fb_draw_filled_rect
                 (fb_draw_rect (fb_draw_filled_rect fb 50 50 400 60 COLOR_BLACK)
                    50 50 400 60 COLOR_GREEN)
                 52 52 297 56 COLOR_GREEN)"
    by (simp add: render_gauge_def Let_def gauge1_fill_width) (simp add: gauge1_def)
  from a b c d e f g gauge1_fill_width show ?thesis
    by blast
qed

theorem render_gauge_fill_witness:
  "representable (elem_min_value gauge1) \<and> representable (elem_max_value gauge1) \<and>
   elem_value gauge1 \<noteq> NaN \<and> \<not> f32_eq (elem_max_value gauge1) (elem_min_value gauge1) \<and>
   is_finite (f32_sub (elem_max_value gauge1) (elem_min_value gauge1)) \<and>
   4 \<le> unat (elem_width gauge1) \<and> unat (elem_width gauge1) \<le> 2 ^ 32 - 125 \<and>
   unat (elem_width gauge1) < 2 ^ 24 + 4 \<and> unrounded gauge1 \<and>
   f32_to_u32 (f32_mul (gauge_percentage gauge1) (u32_to_f32 (elem_width gauge1 - 4))) = Some 297 \<and>
   render_gauge gauge1 small_screen =
     Some (fb_draw_filled_rect
             (fb_draw_rect (fb_draw_filled_rect small_screen 50 50 400 60 COLOR_BLACK)
                50 50 400 60 COLOR_GREEN)
             52 52 297 56 COLOR_GREEN) \<and>
   (297 :: u32) \<le> elem_width gauge1 - 4 \<and>
   int (unat (297 :: u32)) = \<lfloor>spec_fill_width gauge1\<rfloor>"
proof -
  have s: "f32_sub (Finite 100) (Finite 0) = Finite 100"
    using f32_round_int [of 100] by (simp add: f32_sub_def f32_add_def)
  have r: "representable (elem_min_value gauge1)" "representable (elem_max_value gauge1)"
    using f32_round_int [of 0] f32_round_int [of 100] by (simp_all add: gauge1_def representable_def)
  have h: "elem_value gauge1 \<noteq> NaN" "\<not> f32_eq (elem_max_value gauge1) (elem_min_value gauge1)"
    "is_finite (f32_sub (elem_max_value gauge1) (elem_min_value gauge1))"
    "4 \<le> unat (elem_width gauge1)" "unat (elem_width gauge1) \<le> 2 ^ 32 - 125"
    by (simp_all add: gauge1_def s f32_eq_def)
  have l: "unat (elem_width gauge1) < 2 ^ 24 + 4"
    by (simp add: gauge1_def)
  have "rat_of_nat (unat (elem_width gauge1 - 4)) = 396"
    by (simp add: gauge1_def)
  then have u: "unrounded gauge1"
    using f32_round_int [of 75] f32_round_int [of 100] f32_round_int [of 396]
      f32_round_int [of 297] f32_0_75
    by (simp add: unrounded_def Let_def clamp_def representable_def) (simp add: gauge1_def)
  from render_gauge_fill [OF r h, of small_screen] obtain n where
    n: "f32_to_u32 (f32_mul (gauge_percentage gauge1) (u32_to_f32 (elem_width gauge1 - 4))) = Some n"
    and d: "render_gauge gauge1 small_screen =
         Some (if 0 < n
               then fb_draw_filled_rect
                      (fb_draw_rect
                         (fb_draw_filled_rect small_screen (elem_x gauge1) (elem_y gauge1)
                            (elem_width gauge1) (elem_height gauge1) COLOR_BLACK)
                         (elem_x gauge1) (elem_y gauge1) (elem_width gauge1) (elem_height gauge1)
                         (elem_color gauge1))
                      (elem_x gauge1 + 2) (elem_y gauge1 + 2) n (elem_height gauge1 - 4)
                      (elem_color gauge1)
               else fb_draw_rect
                      (fb_draw_filled_rect small_screen (elem_x gauge1) (elem_y gauge1)
                         (elem_width gauge1) (elem_height gauge1) COLOR_BLACK)
                      (elem_x gauge1) (elem_y gauge1) (elem_width gauge1) (elem_height gauge1)
                      (elem_color gauge1))"
    and e: "unat (elem_width gauge1) < 2 ^ 24 + 4 \<longrightarrow> n \<le> elem_width gauge1 - 4"
    and f: "unrounded gauge1 \<longrightarrow> int (unat n) = \<lfloor>spec_fill_width gauge1\<rfloor>"
    by blast
  have "n = 297"
    using n gauge1_fill_width by (simp only: gauge_fill_width_def option.inject)
  with n d e f l u have
    "f32_to_u32 (f32_mul (gauge_percentage gauge1) (u32_to_f32 (elem_width gauge1 - 4))) = Some 297"
    "render_gauge gauge1 small_screen =
     Some (fb_draw_filled_rect
             (fb_draw_rect (fb_draw_filled_rect small_screen 50 50 400 60 COLOR_BLACK)
                50 50 400 60 COLOR_GREEN)
             52 52 297 56 COLOR_GREEN)"
    "(297 :: u32) \<le> elem_width gauge1 - 4"
    "int (unat (297 :: u32)) = \<lfloor>spec_fill_width gauge1\<rfloor>"
    by (simp_all add: gauge1_def)
  with r h l u show ?thesis
    by blast
qed


lemma colors_distinct:
  "COLOR_RED \<noteq> COLOR_GREEN" "COLOR_RED \<noteq> COLOR_YELLOW" "COLOR_YELLOW \<noteq> COLOR_GREEN"
  by (simp_all add: COLOR_RED_def COLOR_GREEN_def COLOR_YELLOW_def RGB_def)

lemma indicator_color_cases:
  "indicator_color elem =
     (if f32_gt (value_percentage elem) (Finite (13421773 / 16777216)) then COLOR_RED
      else if f32_gt (value_percentage elem) (Finite (5033165 / 8388608)) then COLOR_YELLOW
      else COLOR_GREEN)"
  by (simp add: indicator_color_def f32_0_8 f32_0_6)





text \<open>
  C6, as stated, fails at the lower threshold: at exactly 60% (value 60 in \<open>0 \<dots> 100\<close>)
  the fraction equals the literal \<^verbatim>\<open>0.6f\<close>, the comparison \<^verbatim>\<open>percentage > 0.6f\<close> is false,
  and the indicator is green, not yellow.
\<close>

theorem indicator_green_at_60:
  "indicator_color (value1\<lparr>elem_value := Finite 60\<rparr>) = COLOR_GREEN \<and>
   COLOR_GREEN \<noteq> COLOR_YELLOW"
proof -
  have "f32_sub (Finite 60) (Finite 0) = Finite 60" "f32_sub (Finite 100) (Finite 0) = Finite 100"
    using f32_round_int [of 60] f32_round_int [of 100] by (simp_all add: f32_sub_def f32_add_def)
  moreover have "f32_div (Finite 60) (Finite 100) = Finite (5033165 / 8388608)"
    using f32_0_6 by (simp add: f32_div_def)
  ultimately have "value_percentage (value1\<lparr>elem_value := Finite 60\<rparr>) = Finite (5033165 / 8388608)"
    by (simp add: value_percentage_def value1_def)
  then show ?thesis
    using colors_distinct by (simp add: indicator_color_cases f32_gt_def f32_lt_def)
qed

text \<open>
  C6, amended. Rendering a Value element draws the background and the outline plus a
  20-pixel-wide indicator bar at \<open>(x + 5, y + 5)\<close> of height \<open>height - 10\<close>, whose color
  is determined by the fraction \<open>(value - min) / (max - min)\<close> compared with the
  single-precision literals \<^verbatim>\<open>0.8f\<close> and \<^verbatim>\<open>0.6f\<close>: red above \<^verbatim>\<open>0.8f\<close>, yellow above
  \<^verbatim>\<open>0.6f\<close> up to and including \<^verbatim>\<open>0.8f\<close>, green up to and including \<^verbatim>\<open>0.6f\<close> (and for
  a NaN). Value 85 in \<open>0 \<dots> 100\<close> gives a red indicator.
\<close>

theorem render_value_indicator:
  "render_value elem fb =
     fb_draw_filled_rect
       (fb_draw_rect
          (fb_draw_filled_rect fb (elem_x elem) (elem_y elem) (elem_width elem)
             (elem_height elem) COLOR_BLACK)
          (elem_x elem) (elem_y elem) (elem_width elem) (elem_height elem) (elem_color elem))
       (elem_x elem + 5) (elem_y elem + 5) 20 (elem_height elem - 10) (indicator_color elem) \<and>
   value_percentage elem =
     f32_div (f32_sub (elem_value elem) (elem_min_value elem))
             (f32_sub (elem_max_value elem) (elem_min_value elem)) \<and>
   (f32_gt (value_percentage elem) (Finite (13421773 / 16777216)) \<longrightarrow>
      indicator_color elem = COLOR_RED) \<and>
   (f32_gt (value_percentage elem) (Finite (5033165 / 8388608)) \<and>
    f32_le (value_percentage elem) (Finite (13421773 / 16777216)) \<longrightarrow>
      indicator_color elem = COLOR_YELLOW) \<and>
   (f32_le (value_percentage elem) (Finite (5033165 / 8388608)) \<or> value_percentage elem = NaN \<longrightarrow>
      indicator_color elem = COLOR_GREEN) \<and>
   indicator_color (value1\<lparr>elem_value := Finite 85\<rparr>) = COLOR_RED"
proof -
  have "f32_sub (Finite 85) (Finite 0) = Finite 85" "f32_sub (Finite 100) (Finite 0) = Finite 100"
    using f32_round_int [of 85] f32_round_int [of 100] by (simp_all add: f32_sub_def f32_add_def)
  moreover have "f32_div (Finite 85) (Finite 100) = Finite (7130317 / 8388608)"
    using f32_0_85 by (simp add: f32_div_def)
  ultimately have "value_percentage (value1\<lparr>elem_value := Finite 85\<rparr>) = Finite (7130317 / 8388608)"
    by (simp add: value_percentage_def value1_def)
  then have red: "indicator_color (value1\<lparr>elem_value := Finite 85\<rparr>) = COLOR_RED"
    by (simp add: indicator_color_cases f32_gt_def f32_lt_def)
  have "indicator_color elem = COLOR_GREEN"
    if "f32_le (value_percentage elem) (Finite (5033165 / 8388608)) \<or> value_percentage elem = NaN"
    using that by (cases "value_percentage elem")
      (auto simp: indicator_color_cases f32_gt_def f32_lt_def f32_le_def)
  moreover have "indicator_color elem = COLOR_YELLOW"
    if "f32_gt (value_percentage elem) (Finite (5033165 / 8388608))"
      "f32_le (value_percentage elem) (Finite (13421773 / 16777216))"
    using that by (cases "value_percentage elem")
      (auto simp: indicator_color_cases f32_gt_def f32_lt_def f32_le_def)
  ultimately show ?thesis
    using red by (simp add: render_value_def indicator_color_cases value_percentage_def)
qed

theorem render_value_indicator_witness:
  "f32_gt (value_percentage (value1\<lparr>elem_value := Finite 85\<rparr>)) (Finite (13421773 / 16777216)) \<and>
   indicator_color (value1\<lparr>elem_value := Finite 85\<rparr>) = COLOR_RED \<and>
   f32_gt (value_percentage value1) (Finite (5033165 / 8388608)) \<and>
   f32_le (value_percentage value1) (Finite (13421773 / 16777216)) \<and>
   indicator_color value1 = COLOR_YELLOW \<and>
   f32_le (value_percentage (value1\<lparr>elem_value := Finite 60\<rparr>)) (Finite (5033165 / 8388608)) \<and>
   indicator_color (value1\<lparr>elem_value := Finite 60\<rparr>) = COLOR_GREEN"
proof -
  have s: "f32_sub (Finite 85) (Finite 0) = Finite 85" "f32_sub (Finite 100) (Finite 0) = Finite 100"
    "f32_sub (Finite 65) (Finite 0) = Finite 65" "f32_sub (Finite 60) (Finite 0) = Finite 60"
    using f32_round_int [of 85] f32_round_int [of 100] f32_round_int [of 65] f32_round_int [of 60]
    by (simp_all add: f32_sub_def f32_add_def)
  have d: "f32_div (Finite 85) (Finite 100) = Finite (7130317 / 8388608)"
    "f32_div (Finite 65) (Finite 100) = Finite (5452595 / 8388608)"
    "f32_div (Finite 60) (Finite 100) = Finite (5033165 / 8388608)"
    using f32_0_85 f32_0_65 f32_0_6 by (simp_all add: f32_div_def)
  have q: "value_percentage (value1\<lparr>elem_value := Finite 85\<rparr>) = Finite (7130317 / 8388608)"
    "value_percentage value1 = Finite (5452595 / 8388608)"
    "value_percentage (value1\<lparr>elem_value := Finite 60\<rparr>) = Finite (5033165 / 8388608)"
    by (simp_all add: value_percentage_def value1_def s d)
  have c: "f32_gt (value_percentage (value1\<lparr>elem_value := Finite 85\<rparr>)) (Finite (13421773 / 16777216))"
    "f32_gt (value_percentage value1) (Finite (5033165 / 8388608))"
    "f32_le (value_percentage value1) (Finite (13421773 / 16777216))"
    "f32_le (value_percentage (value1\<lparr>elem_value := Finite 60\<rparr>)) (Finite (5033165 / 8388608))"
    by (simp_all add: q f32_gt_def f32_lt_def f32_le_def)
  from render_value_indicator [of "value1\<lparr>elem_value := Finite 85\<rparr>" small_screen]
    render_value_indicator [of value1 small_screen]
    render_value_indicator [of "value1\<lparr>elem_value := Finite 60\<rparr>" small_screen] c
  show ?thesis
    by blast
qed

section \<open>Claims about framebuffer negotiation\<close>

lemma booted_call:
  "mailbox_call MAILBOX_CH_PROP (booted fw\<lparr>mailbox := mb\<rparr>) =
     Some (fw 0x8F008 mb 1 = 0x80000000,
           booted fw\<lparr>mmio_reads := [], mmio_writes := [(MAILBOX_WRITE, 0x8F008)],
                      mailbox := fw 0x8F008 mb\<rparr>)"
proof -
  have r: "mailbox_message 0x8F000 MAILBOX_CH_PROP = 0x8F008"
    by (simp add: mailbox_message_def MAILBOX_CH_PROP_def)
  show ?thesis
    by (simp add: mailbox_call_def booted_def r MAILBOX_FULL_def MAILBOX_EMPTY_def)
qed

lemma mailbox_call_ack:
  assumes "mailbox_call channel m = Some (ack, m')"
  shows "ack \<longleftrightarrow> mailbox m' 1 = 0x80000000"
proof -
  let ?r = "mailbox_message (mailbox_addr m) channel"
  obtain vs where p: "poll_while MAILBOX_FULL (mmio_reads m) = Some vs"
    using assms by (cases "poll_while MAILBOX_FULL (mmio_reads m)") (simp_all add: mailbox_call_def)
  obtain vs' where a: "await_response ?r vs = Some vs'"
    using assms p by (cases "await_response ?r vs") (simp_all add: mailbox_call_def Let_def)
  from assms have "ack = (firmware m ?r (mailbox m) 1 = 0x80000000)"
    and "mailbox m' = firmware m ?r (mailbox m)"
    by (auto simp: mailbox_call_def Let_def p a)
  then show ?thesis
    by simp
qed

text \<open>
  C9, as stated, fails: \<^verbatim>\<open>fb_init\<close> never looks at the returned address. When the
  firmware acknowledges and returns the buffer address 0, \<^verbatim>\<open>fb_init\<close> returns 0
  (success) with a handle whose buffer pointer is 0.
\<close>

theorem fb_init_null_address:
  "map_option fst (fb_init small_screen 1920 1080 (booted null_firmware)) = Some 0 \<and>
   map_option (fb_buffer \<circ> fst \<circ> snd) (fb_init small_screen 1920 1080 (booted null_firmware))
     = Some 0"
  by (simp add: fb_init_def booted_call) (simp add: null_firmware_def booted_def)

text \<open>
  C9, amended. Whenever \<^verbatim>\<open>fb_init\<close> returns, it fails (returns \<open>-1\<close>, leaving the
  handle as it was) exactly when word 1 of the mailbox buffer is not the acknowledgement
  constant \<open>0x80000000\<close> after the matching response; otherwise it returns 0 with the
  handle holding the requested width and height, the pitch read back from word 33 and
  the address of word 28 with its top two bits cleared. A null address is not checked.
\<close>

theorem fb_init_outcome:
  assumes "fb_init fb width height m = Some (rc, fb', m')"
  shows "(rc = - 1 \<longleftrightarrow> mailbox m' 1 \<noteq> 0x80000000) \<and>
         (rc = - 1 \<longrightarrow> fb' = fb) \<and>
         (rc \<noteq> - 1 \<longrightarrow> rc = 0 \<and>
            fb' = fb\<lparr>fb_width := width, fb_height := height, fb_pitch := mailbox m' 33,
                      fb_buffer := mailbox m' 28 AND 0x3FFFFFFF\<rparr>)"
proof (cases "mailbox_call MAILBOX_CH_PROP (m\<lparr>mailbox := fb_request width height (mailbox m)\<rparr>)")
  case None
  with assms show ?thesis
    by (simp add: fb_init_def)
next
  case (Some res)
  obtain ack m1 where res: "res = (ack, m1)"
    by (cases res)
  have ack: "ack \<longleftrightarrow> mailbox m1 1 = 0x80000000"
    using Some unfolding res by (rule mailbox_call_ack)
  show ?thesis
  proof (cases ack)
    case True
    have "fb_init fb width height m =
      Some (0, fb\<lparr>fb_width := width, fb_height := height, fb_pitch := mailbox m1 33,
                      fb_buffer := mailbox m1 28 AND 0x3FFFFFFF\<rparr>, m1)"
      by (simp add: fb_init_def Some res True)
    with assms have "Some (rc, fb', m') =
      Some (0, fb\<lparr>fb_width := width, fb_height := height, fb_pitch := mailbox m1 33,
                      fb_buffer := mailbox m1 28 AND 0x3FFFFFFF\<rparr>, m1)"
      by (simp only:)
    then have "rc = 0" "m' = m1"
      "fb' = fb\<lparr>fb_width := width, fb_height := height, fb_pitch := mailbox m1 33,
                  fb_buffer := mailbox m1 28 AND 0x3FFFFFFF\<rparr>"
      by simp_all
    with True ack show ?thesis
      by simp
  next
    case False
    have "fb_init fb width height m = Some (- 1, fb, m1)"
      by (simp add: fb_init_def Some res False)
    with assms have "Some (rc, fb', m') = Some (- 1, fb, m1)"
      by (simp only:)
    then have "rc = - 1" "m' = m1" "fb' = fb"
      by simp_all
    with False ack show ?thesis
      by simp
  qed
qed

theorem fb_init_outcome_witness:
  "fb_init small_screen 1920 1080 (booted granting_firmware) =
     Some (0, small_screen\<lparr>fb_width := 1920, fb_height := 1080, fb_pitch := 7680,
                            fb_buffer := 0x3E402000\<rparr>,
           booted granting_firmware\<lparr>mmio_reads := [], mmio_writes := [(MAILBOX_WRITE, 0x8F008)],
             mailbox := granting_firmware 0x8F008 (fb_request 1920 1080 (\<lambda>i. 0))\<rparr>) \<and>
   mailbox (booted granting_firmware\<lparr>mmio_reads := [], mmio_writes := [(MAILBOX_WRITE, 0x8F008)],
             mailbox := granting_firmware 0x8F008 (fb_request 1920 1080 (\<lambda>i. 0))\<rparr>) 1 = 0x80000000 \<and>
   fb_init small_screen 1920 1080 (booted failing_firmware) =
     Some (- 1, small_screen,
           booted failing_firmware\<lparr>mmio_reads := [], mmio_writes := [(MAILBOX_WRITE, 0x8F008)],
             mailbox := failing_firmware 0x8F008 (fb_request 1920 1080 (\<lambda>i. 0))\<rparr>) \<and>
   mailbox (booted failing_firmware\<lparr>mmio_reads := [], mmio_writes := [(MAILBOX_WRITE, 0x8F008)],
             mailbox := failing_firmware 0x8F008 (fb_request 1920 1080 (\<lambda>i. 0))\<rparr>) 1 \<noteq> 0x80000000"
proof -
  have g: "fb_init small_screen 1920 1080 (booted granting_firmware) =
     Some (0, small_screen\<lparr>fb_width := 1920, fb_height := 1080, fb_pitch := 7680,
                            fb_buffer := 0x3E402000\<rparr>,
           booted granting_firmware\<lparr>mmio_reads := [], mmio_writes := [(MAILBOX_WRITE, 0x8F008)],
             mailbox := granting_firmware 0x8F008 (fb_request 1920 1080 (\<lambda>i. 0))\<rparr>)"
    by (simp add: fb_init_def booted_call) (simp add: granting_firmware_def booted_def)
  have f: "fb_init small_screen 1920 1080 (booted failing_firmware) =
     Some (- 1, small_screen,
           booted failing_firmware\<lparr>mmio_reads := [], mmio_writes := [(MAILBOX_WRITE, 0x8F008)],
             mailbox := failing_firmware 0x8F008 (fb_request 1920 1080 (\<lambda>i. 0))\<rparr>)"
    by (simp add: fb_init_def booted_call) (simp add: failing_firmware_def booted_def)
  from fb_init_outcome [OF g] fb_init_outcome [OF f] g f show ?thesis
    by simp
qed

section \<open>Claims about rendering twice\<close>


lemma paints_mem: "paints (fb\<lparr>fb_mem := m\<rparr>) f = paints fb f"
  by (simp add: paints_def)

lemma steady_mem: "steady (fb\<lparr>fb_mem := m\<rparr>) f = steady fb f"
  by (simp add: steady_def paints_mem)



































text \<open>
  The grid loop does not always end: with the bound \<open>2\<^sup>3\<^sup>2 - 1\<close> (an element with
  \<open>x = 0\<close> and \<open>width = 1\<close>, where \<open>x + width - 2\<close> wraps) the counter starts at 2, steps
  by 4 and stays below the bound for ever.
\<close>

lemma graph_dots_hangs: "graph_dots t 2 (- 1) y_pos = None"
proof (rule ccontr)
  assume "graph_dots t 2 (- 1) y_pos \<noteq> None"
  then obtain r where r: "graph_dots t 2 (- 1) y_pos = Some r"
    by blast
  have step: "\<not> (bound = (- 1) \<and> unat x mod 4 = 2)"
    if IH: "\<And>t x bound y_pos r. dots t x bound y_pos = Some r \<Longrightarrow>
        \<not> (bound = (- 1) \<and> unat x mod 4 = 2)"
      and eq: "(if x < bound then dots (fb_draw_pixel t x y_pos COLOR_GRAY) (x + 4) bound y_pos
        else Some t) = Some r"
    for dots :: "framebuffer \<Rightarrow> u32 \<Rightarrow> u32 \<Rightarrow> u32 \<Rightarrow> framebuffer option"
      and t x bound y_pos r
  proof
    assume a: "bound = (- 1) \<and> unat x mod 4 = 2"
    then have "x \<noteq> - 1"
      by (auto simp: unsigned_minus_1_eq_mask mask_eq_exp_minus_1)
    then have "x < bound"
      using a by (simp add: word_order.not_eq_extremum)
    with eq have "dots (fb_draw_pixel t x y_pos COLOR_GRAY) (x + 4) bound y_pos = Some r"
      by simp
    from IH [OF this] a have "unat (x + 4) mod 4 \<noteq> 2"
      by simp
    moreover have "unat (x + 4) mod 4 = (unat x + 4) mod 4"
      by (simp add: unat_word_ariths mod_mod_cancel)
    ultimately show False
      using a by simp
  qed
  have "\<not> ((- 1 :: u32) = - 1 \<and> unat (2 :: u32) mod 4 = 2)"
  proof (rule graph_dots.raw_induct
      [where P = "\<lambda>t x bound y_pos r. \<not> (bound = (- 1) \<and> unat x mod 4 = 2)"
         and xa = "(((t, 2), (- 1)), y_pos)" and y = r, unfolded prod.case])
    show "graph_dots t 2 (- 1) y_pos = Some r"
      by (rule r)
  next
    fix dots :: "framebuffer \<Rightarrow> u32 \<Rightarrow> u32 \<Rightarrow> u32 \<Rightarrow> framebuffer option"
      and t x bound y_pos r
    assume "\<And>t x bound y_pos r. dots t x bound y_pos = Some r \<Longrightarrow>
        \<not> (bound = (- 1) \<and> unat x mod 4 = 2)"
      and "(if x < bound then dots (fb_draw_pixel t x y_pos COLOR_GRAY) (x + 4) bound y_pos
        else Some t) = Some r"
    then show "\<not> (bound = (- 1) \<and> unat x mod 4 = 2)"
      by (rule step)
  qed
  then show False
    by simp
qed

lemma render_graph_hangs:
  assumes "elem_x elem = 0" and "elem_width elem = 1"
  shows "render_graph elem t = None"
proof -
  have "for_loop i 4 (\<lambda>i s. Option.bind s (\<lambda>fb'. graph_dots fb' 2 (- 1) (y i))) None = None"
    for i :: u32 and y :: "u32 \<Rightarrow> u32"
    by (rule for_loop_invariant [where P = "\<lambda>s. s = None"]) simp_all
  then show ?thesis
    by (simp add: render_graph_def assms for_loop.simps [of 1] graph_dots_hangs)
qed



end
